theory Spec2Isabelle
  imports Main "HOL-Library.Word"
begin

section \<open>Strings\<close>

text \<open>
  A JavaScript string is a sequence of 16-bit code units.  \<open>js\<close> turns an ASCII
  literal of the logic into such a string.
\<close>

type_synonym jchar = "16 word"
type_synonym jstring = "jchar list"

definition js :: "string \<Rightarrow> jstring" where
  "js s = map (\<lambda>c. of_nat (of_char c)) s"

section \<open>The feed state (store.ts, lines 6-28 and 55-100)\<close>

text \<open>
  \<open>interface Story\<close>.  The fields \<open>id\<close> and \<open>by\<close> carry a prime because the plain
  names are taken in the logic.  The numeric fields are integers: story ids, scores and
  UNIX timestamps are whole numbers.
\<close>

record Story =
  id' :: int
  title :: jstring
  url :: jstring
  score :: int
  by' :: jstring
  time :: int

text \<open>The data fields of \<open>interface UIState\<close>; the actions are the functions below.\<close>

record UIState =
  searchQuery :: jstring
  stories :: "Story list"
  searchStories :: "Story list"
  page :: int
  searchPage :: int

text \<open>The initial state given to \<open>create\<close> (lines 59-63).\<close>

definition initialState :: UIState where
  "initialState = \<lparr> searchQuery = [], stories = [], searchStories = [], page = 1, searchPage = 1 \<rparr>"

subsection \<open>Array helpers of the language\<close>

text \<open>
  \<open>Array.prototype.findIndex\<close>: the index of the first element satisfying the predicate,
  or \<open>-1\<close> when there is none.
\<close>

fun findIndex :: "('a \<Rightarrow> bool) \<Rightarrow> 'a list \<Rightarrow> int" where
  "findIndex P [] = - 1"
| "findIndex P (x # xs) =
     (if P x then 0
      else (let r = findIndex P xs in if r = - 1 then - 1 else r + 1))"

text \<open>
  \<open>Array.prototype.filter\<close> with the three-argument callback \<open>(element, index, array)\<close>.
\<close>

definition filter_indexed :: "('a \<Rightarrow> nat \<Rightarrow> 'a list \<Rightarrow> bool) \<Rightarrow> 'a list \<Rightarrow> 'a list" where
  "filter_indexed p self = map fst (filter (\<lambda>(x, i). p x i self) (zip self [0..<length self]))"

text \<open>
  \<open>Array.prototype.sort\<close> with a comparator.  The language guarantees a stable sort, and
  for a comparator that is a total preorder the result is then determined; it is computed
  here by stable insertion: an element is placed before the first element it does not
  compare greater than.
\<close>

fun insert_by :: "('a \<Rightarrow> 'a \<Rightarrow> int) \<Rightarrow> 'a \<Rightarrow> 'a list \<Rightarrow> 'a list" where
  "insert_by cmp x [] = [x]"
| "insert_by cmp x (y # ys) = (if cmp x y \<le> 0 then x # y # ys else y # insert_by cmp x ys)"

definition sort_by :: "('a \<Rightarrow> 'a \<Rightarrow> int) \<Rightarrow> 'a list \<Rightarrow> 'a list" where
  "sort_by cmp xs = foldr (insert_by cmp) xs []"

subsection \<open>Actions\<close>

text \<open>\<open>setSearchQuery\<close> (lines 65-69): the comparison is \<open>!==\<close> on the strings as given.\<close>

definition setSearchQuery :: "UIState \<Rightarrow> jstring \<Rightarrow> UIState" where
  "setSearchQuery st query =
     (if query \<noteq> searchQuery st
      then st\<lparr> searchQuery := query, searchPage := 1, searchStories := [] \<rparr>
      else st)"

text \<open>
  The expression shared by \<open>addStories\<close> (lines 73-75) and \<open>addSearchStories\<close>
  (lines 82-84): spread both arrays into one, keep an element when the first index holding
  its id is its own index, sort by \<open>b.time - a.time\<close>.
\<close>

definition dedupe :: "Story list \<Rightarrow> Story list" where
  "dedupe all = filter_indexed
     (\<lambda>story index self. findIndex (\<lambda>s. id' s = id' story) self = int index) all"

definition updatedStories :: "Story list \<Rightarrow> Story list \<Rightarrow> Story list" where
  "updatedStories existingStories newStories =
     sort_by (\<lambda>a b. time b - time a) (dedupe (existingStories @ newStories))"

definition addStories :: "UIState \<Rightarrow> Story list \<Rightarrow> UIState" where
  "addStories st newStories = st\<lparr> stories := updatedStories (stories st) newStories \<rparr>"

definition addSearchStories :: "UIState \<Rightarrow> Story list \<Rightarrow> UIState" where
  "addSearchStories st newStories =
     st\<lparr> searchStories := updatedStories (searchStories st) newStories \<rparr>"

text \<open>The remaining setters (lines 89-92).\<close>

definition resetStories :: "UIState \<Rightarrow> UIState" where
  "resetStories st = st\<lparr> stories := [] \<rparr>"

definition resetSearchStories :: "UIState \<Rightarrow> UIState" where
  "resetSearchStories st = st\<lparr> searchStories := [] \<rparr>"

definition setPage :: "UIState \<Rightarrow> int \<Rightarrow> UIState" where
  "setPage st p = st\<lparr> page := p \<rparr>"

definition setSearchPage :: "UIState \<Rightarrow> int \<Rightarrow> UIState" where
  "setSearchPage st p = st\<lparr> searchPage := p \<rparr>"

subsection \<open>Reference definitions taken from the specification\<close>

text \<open>
  The specification's wording of the de-duplication step: walk the concatenated list and
  keep an item exactly when its id has not been seen before.
\<close>

fun keep_first :: "int set \<Rightarrow> Story list \<Rightarrow> Story list" where
  "keep_first seen [] = []"
| "keep_first seen (x # xs) =
     (if id' x \<in> seen then keep_first seen xs else x # keep_first (insert (id' x) seen) xs)"

text \<open>
  \<open>String.prototype.trim\<close>, which the rendering code applies to the query before it
  decides whether a search is active; the store itself never calls it.  It strips the
  white space and line terminator code units of the language from both ends.
\<close>

definition isTrimSpace :: "jchar \<Rightarrow> bool" where
  "isTrimSpace c =
     (c \<in> {0x9, 0xA, 0xB, 0xC, 0xD, 0x20, 0xA0, 0x1680, 0x2028, 0x2029, 0x202F, 0x205F,
            0x3000, 0xFEFF}
      \<or> (0x2000 \<le> c \<and> c \<le> 0x200A))"

definition trim :: "jstring \<Rightarrow> jstring" where
  "trim s = rev (dropWhile isTrimSpace (rev (dropWhile isTrimSpace s)))"

subsection \<open>Example data\<close>

text \<open>Stories used in the worked examples.\<close>

definition story1 :: Story where
  "story1 = \<lparr> id' = 1, title = [], url = [], score = 10, by' = [], time = 0 \<rparr>"

definition story1' :: Story where
  "story1' = \<lparr> id' = 1, title = [], url = [], score = 99, by' = [], time = 0 \<rparr>"

definition storyA :: Story where
  "storyA = \<lparr> id' = 5, title = [], url = [], score = 0, by' = [], time = 100 \<rparr>"

definition storyB :: Story where
  "storyB = \<lparr> id' = 3, title = [], url = [], score = 0, by' = [], time = 200 \<rparr>"

definition storyC :: Story where
  "storyC = \<lparr> id' = 7, title = [], url = [], score = 0, by' = [], time = 100 \<rparr>"

section \<open>The expiring storage handler (store.ts, lines 4 and 30-53)\<close>

subsection \<open>Values of the language\<close>

text \<open>
  The values that \<open>customStorage.setItem\<close> can be handed (its parameter is typed \<open>any\<close>) and
  that \<open>JSON.parse\<close> can produce.  \<open>VUndefined\<close> is \<open>undefined\<close>; it also stands for function
  and symbol values, which \<open>JSON.stringify\<close> treats in the same way.  Numbers are integers:
  timestamps, ids, scores and page numbers are whole numbers, and floating-point values
  (fractions, \<open>NaN\<close>, the infinities, the negative zero) are outside the model.  An object is
  the list of its own properties in enumeration order; the language's rule that lists
  index-like property names first is not modelled, it only changes the order of the
  members in the text.
\<close>

datatype jsval =
    VUndefined
  | VNull
  | VBool bool
  | VNum int
  | VStr jstring
  | VArr "jsval list"
  | VObj "(jstring \<times> jsval) list"

subsection \<open>\<open>JSON.stringify\<close>\<close>

text \<open>
  Decimal digits and the decimal text of an integer: a minus sign for a negative number,
  then the digits without leading zeros.  This is how the language prints an integer below
  \<open>10\<^sup>2\<^sup>1\<close> in absolute value, which covers every timestamp.
\<close>

definition isDigit :: "jchar \<Rightarrow> bool" where
  "isDigit c = (0x30 \<le> c \<and> c \<le> 0x39)"

definition digitChar :: "nat \<Rightarrow> jchar" where
  "digitChar d = of_nat (48 + d)"

definition digitValue :: "jchar \<Rightarrow> nat" where
  "digitValue c = unat c - 48"

function digits :: "nat \<Rightarrow> jstring" where
  "digits n = (if n < 10 then [digitChar n] else digits (n div 10) @ [digitChar (n mod 10)])"
  by pat_completeness auto
termination
  by (relation "measure id") auto

declare digits.simps [simp del]

definition showInt :: "int \<Rightarrow> jstring" where
  "showInt i = (if i < 0 then 0x2D # digits (nat (- i)) else digits (nat i))"

text \<open>
  String quoting as \<open>JSON.stringify\<close> does it: the two-character escapes for backspace,
  tab, line feed, form feed, carriage return, the double quote and the backslash; a
  lower-case four-digit hexadecimal escape for the other code units below 0x20 and for a
  surrogate code unit that is not part of a pair; every other code unit as it is.
\<close>

definition hexChar :: "nat \<Rightarrow> jchar" where
  "hexChar d = (if d < 10 then of_nat (48 + d) else of_nat (87 + d))"

definition unicodeEscape :: "jchar \<Rightarrow> jstring" where
  "unicodeEscape c =
     [0x5C, 0x75, hexChar (unat c div 4096), hexChar (unat c div 256 mod 16),
      hexChar (unat c div 16 mod 16), hexChar (unat c mod 16)]"

definition isLead :: "jchar \<Rightarrow> bool" where
  "isLead c = (0xD800 \<le> c \<and> c \<le> 0xDBFF)"

definition isTrail :: "jchar \<Rightarrow> bool" where
  "isTrail c = (0xDC00 \<le> c \<and> c \<le> 0xDFFF)"

fun escape :: "jstring \<Rightarrow> jstring" where
  "escape [] = []"
| "escape (c # r) =
     (if c = 0x08 then [0x5C, 0x62] @ escape r
      else if c = 0x09 then [0x5C, 0x74] @ escape r
      else if c = 0x0A then [0x5C, 0x6E] @ escape r
      else if c = 0x0C then [0x5C, 0x66] @ escape r
      else if c = 0x0D then [0x5C, 0x72] @ escape r
      else if c = 0x22 then [0x5C, 0x22] @ escape r
      else if c = 0x5C then [0x5C, 0x5C] @ escape r
      else if c < 0x20 then unicodeEscape c @ escape r
      else if isLead c then
        (case r of
           [] \<Rightarrow> unicodeEscape c
         | d # r' \<Rightarrow> if isTrail d then c # d # escape r' else unicodeEscape c @ escape r)
      else if isTrail c then unicodeEscape c @ escape r
      else c # escape r)"

definition quote :: "jstring \<Rightarrow> jstring" where
  "quote s = [0x22] @ escape s @ [0x22]"

text \<open>
  Serialisation of a value.  The result \<open>None\<close> is the \<open>undefined\<close> that \<open>JSON.stringify\<close>
  returns for \<open>undefined\<close>; inside an array such an element is written \<open>null\<close>, inside an
  object the property is left out.
\<close>

fun commas :: "jstring list \<Rightarrow> jstring" where
  "commas [] = []"
| "commas [t] = t"
| "commas (t # u # ts) = t @ [0x2C] @ commas (u # ts)"

fun stringify :: "jsval \<Rightarrow> jstring option"
  and stringifyElements :: "jsval list \<Rightarrow> jstring list"
  and stringifyMembers :: "(jstring \<times> jsval) list \<Rightarrow> jstring list" where
  "stringify VUndefined = None"
| "stringify VNull = Some (js ''null'')"
| "stringify (VBool b) = Some (if b then js ''true'' else js ''false'')"
| "stringify (VNum n) = Some (showInt n)"
| "stringify (VStr s) = Some (quote s)"
| "stringify (VArr xs) = Some ([0x5B] @ commas (stringifyElements xs) @ [0x5D])"
| "stringify (VObj kvs) = Some ([0x7B] @ commas (stringifyMembers kvs) @ [0x7D])"
| "stringifyElements [] = []"
| "stringifyElements (x # xs) =
     (case stringify x of None \<Rightarrow> js ''null'' | Some t \<Rightarrow> t) # stringifyElements xs"
| "stringifyMembers [] = []"
| "stringifyMembers ((k, v) # kvs) =
     (case stringify v of
        None \<Rightarrow> stringifyMembers kvs
      | Some t \<Rightarrow> (quote k @ [0x3A] @ t) # stringifyMembers kvs)"


subsection \<open>\<open>JSON.parse\<close>\<close>

text \<open>
  The outcome of parsing: a result, a \<open>SyntaxError\<close>, \<open>Unsupported\<close> when the text has a
  number with a fraction or an exponent (the model does not say what the parser does with
  it), and \<open>OutOfFuel\<close> when the recursion bound is used up, which never happens for the
  bound that \<open>JSON_parse\<close> passes (lemma \<open>JSON_parse_fuel\<close>).
\<close>

datatype 'a parsed = Parsed 'a | SyntaxErr | Unsupported | OutOfFuel

fun bindp :: "'a parsed \<Rightarrow> ('a \<Rightarrow> 'b parsed) \<Rightarrow> 'b parsed" where
  "bindp (Parsed x) f = f x"
| "bindp SyntaxErr f = SyntaxErr"
| "bindp Unsupported f = Unsupported"
| "bindp OutOfFuel f = OutOfFuel"

text \<open>White space of the JSON grammar, and the characters of string literals.\<close>

definition isWs :: "jchar \<Rightarrow> bool" where
  "isWs c = (c = 0x20 \<or> c = 0x09 \<or> c = 0x0A \<or> c = 0x0D)"

definition skipWs :: "jstring \<Rightarrow> jstring" where
  "skipWs s = dropWhile isWs s"

definition hexValue :: "jchar \<Rightarrow> nat option" where
  "hexValue c =
     (if 0x30 \<le> c \<and> c \<le> 0x39 then Some (unat c - 48)
      else if 0x61 \<le> c \<and> c \<le> 0x66 then Some (unat c - 87)
      else if 0x41 \<le> c \<and> c \<le> 0x46 then Some (unat c - 55)
      else None)"

definition hex4 :: "jstring \<Rightarrow> jchar option" where
  "hex4 s =
     (case map hexValue (take 4 s) of
        [Some h3, Some h2, Some h1, Some h0] \<Rightarrow>
          Some (of_nat (((h3 * 16 + h2) * 16 + h1) * 16 + h0))
      | _ \<Rightarrow> None)"

definition unescape :: "jchar \<Rightarrow> jchar option" where
  "unescape e =
     (if e = 0x22 then Some 0x22
      else if e = 0x5C then Some 0x5C
      else if e = 0x2F then Some 0x2F
      else if e = 0x62 then Some 0x08
      else if e = 0x66 then Some 0x0C
      else if e = 0x6E then Some 0x0A
      else if e = 0x72 then Some 0x0D
      else if e = 0x74 then Some 0x09
      else None)"

fun stringBody :: "jstring \<Rightarrow> (jstring \<times> jstring) parsed" where
  "stringBody [] = SyntaxErr"
| "stringBody (c # r) =
     (if c = 0x22 then Parsed ([], r)
      else if c = 0x5C then
        (case r of
           [] \<Rightarrow> SyntaxErr
         | e # r' \<Rightarrow>
             if e = 0x75 then
               (case hex4 r' of
                  None \<Rightarrow> SyntaxErr
                | Some u \<Rightarrow> bindp (stringBody (drop 4 r')) (\<lambda>(s, rest). Parsed (u # s, rest)))
             else
               (case unescape e of
                  None \<Rightarrow> SyntaxErr
                | Some u \<Rightarrow> bindp (stringBody r') (\<lambda>(s, rest). Parsed (u # s, rest))))
      else if c < 0x20 then SyntaxErr
      else bindp (stringBody r) (\<lambda>(s, rest). Parsed (c # s, rest)))"

text \<open>
  Numbers: an optional minus sign, then a single zero or a run of digits not starting with
  zero.  A following fraction or exponent makes the outcome \<open>Unsupported\<close>.  The text
  \<open>-0\<close> is read as the integer 0.
\<close>

definition digitsValue :: "jstring \<Rightarrow> nat" where
  "digitsValue ds = foldl (\<lambda>a c. 10 * a + digitValue c) 0 ds"

definition parseNat :: "jstring \<Rightarrow> (nat \<times> jstring) parsed" where
  "parseNat s =
     (case s of
        [] \<Rightarrow> SyntaxErr
      | c # r \<Rightarrow>
          if c = 0x30 then Parsed (0, r)
          else if isDigit c then Parsed (digitsValue (takeWhile isDigit s), dropWhile isDigit s)
          else SyntaxErr)"

definition numberEnd :: "jsval \<Rightarrow> jstring \<Rightarrow> (jsval \<times> jstring) parsed" where
  "numberEnd v rest =
     (case rest of
        [] \<Rightarrow> Parsed (v, rest)
      | c # _ \<Rightarrow> if c = 0x2E \<or> c = 0x65 \<or> c = 0x45 then Unsupported else Parsed (v, rest))"

definition parseNumber :: "jstring \<Rightarrow> (jsval \<times> jstring) parsed" where
  "parseNumber s =
     (case s of
        [] \<Rightarrow> SyntaxErr
      | c # r \<Rightarrow>
          if c = 0x2D then bindp (parseNat r) (\<lambda>(n, rest). numberEnd (VNum (- int n)) rest)
          else bindp (parseNat s) (\<lambda>(n, rest). numberEnd (VNum (int n)) rest))"

definition parseLiteral :: "jstring \<Rightarrow> (jsval \<times> jstring) parsed" where
  "parseLiteral s =
     (if take 4 s = js ''null'' then Parsed (VNull, drop 4 s)
      else if take 4 s = js ''true'' then Parsed (VBool True, drop 4 s)
      else if take 5 s = js ''false'' then Parsed (VBool False, drop 5 s)
      else SyntaxErr)"

text \<open>A property defined twice keeps its first position and takes the later value.\<close>

fun put :: "jstring \<Rightarrow> jsval \<Rightarrow> (jstring \<times> jsval) list \<Rightarrow> (jstring \<times> jsval) list" where
  "put k v [] = [(k, v)]"
| "put k v ((k', v') # kvs) = (if k = k' then (k, v) # kvs else (k', v') # put k v kvs)"

text \<open>
  Recursive descent over the text.  The first argument bounds the depth of the recursion;
  every recursive call is made on a strictly shorter text.
\<close>

fun parseValue :: "nat \<Rightarrow> jstring \<Rightarrow> (jsval \<times> jstring) parsed"
  and parseMore :: "nat \<Rightarrow> jsval list \<Rightarrow> jstring \<Rightarrow> (jsval \<times> jstring) parsed"
  and parseMember :: "nat \<Rightarrow> (jstring \<times> jsval) list \<Rightarrow> jstring \<Rightarrow> (jsval \<times> jstring) parsed"
  where
  "parseValue 0 s = OutOfFuel"
| "parseValue (Suc n) s =
     (case skipWs s of
        [] \<Rightarrow> SyntaxErr
      | c # r \<Rightarrow>
          if c = 0x5B then
            (case skipWs r of
               [] \<Rightarrow> SyntaxErr
             | d # r' \<Rightarrow>
                 if d = 0x5D then Parsed (VArr [], r')
                 else bindp (parseValue n (d # r')) (\<lambda>(v, rest). parseMore n [v] rest))
          else if c = 0x7B then
            (case skipWs r of
               [] \<Rightarrow> SyntaxErr
             | d # r' \<Rightarrow>
                 if d = 0x7D then Parsed (VObj [], r')
                 else parseMember n [] (d # r'))
          else if c = 0x22 then bindp (stringBody r) (\<lambda>(str, rest). Parsed (VStr str, rest))
          else if c = 0x2D \<or> isDigit c then parseNumber (c # r)
          else parseLiteral (c # r))"
| "parseMore 0 acc s = OutOfFuel"
| "parseMore (Suc n) acc s =
     (case skipWs s of
        [] \<Rightarrow> SyntaxErr
      | c # r \<Rightarrow>
          if c = 0x2C then bindp (parseValue n r) (\<lambda>(v, rest). parseMore n (acc @ [v]) rest)
          else if c = 0x5D then Parsed (VArr acc, r)
          else SyntaxErr)"
| "parseMember 0 acc s = OutOfFuel"
| "parseMember (Suc n) acc s =
     (case s of
        [] \<Rightarrow> SyntaxErr
      | q # r \<Rightarrow>
          if q = 0x22 then
            bindp (stringBody r) (\<lambda>(k, r1).
              case skipWs r1 of
                [] \<Rightarrow> SyntaxErr
              | col # r2 \<Rightarrow>
                  if col = 0x3A then
                    bindp (parseValue n r2) (\<lambda>(v, r3).
                      case skipWs r3 of
                        [] \<Rightarrow> SyntaxErr
                      | e # r4 \<Rightarrow>
                          if e = 0x2C then parseMember n (put k v acc) (skipWs r4)
                          else if e = 0x7D then Parsed (VObj (put k v acc), r4)
                          else SyntaxErr)
                  else SyntaxErr)
          else SyntaxErr)"

definition JSON_parse :: "jstring \<Rightarrow> jsval parsed" where
  "JSON_parse text =
     bindp (parseValue (Suc (length text)) text)
       (\<lambda>(v, rest). if skipWs rest = [] then Parsed v else SyntaxErr)"


subsection \<open>The handler\<close>

text \<open>
  \<open>localStorage\<close> maps key strings to value strings.  The current time
  (\<open>new Date().getTime()\<close>, milliseconds) is an argument of the two functions that read the
  clock.  A call either returns a value (\<open>null\<close> is \<open>Returned VNull\<close>) or raises;
  \<open>Unmodelled\<close> marks the entries whose outcome needs arithmetic on values that are not
  integers.
\<close>

type_synonym localStorage = "jstring \<rightharpoonup> jstring"

datatype error = SyntaxError | TypeError

datatype outcome = Returned jsval | Raised error | Unmodelled

text \<open>Line 4.\<close>

definition EXPIRATION_TIME :: int where
  "EXPIRATION_TIME = 24 * 60 * 60 * 1000"

text \<open>\<open>setItem\<close> (lines 46-49): the object literal \<open>{ value, timestamp: now }\<close>, serialised.\<close>

definition envelope :: "jsval \<Rightarrow> int \<Rightarrow> jsval" where
  "envelope v now = VObj [(js ''value'', v), (js ''timestamp'', VNum now)]"

definition setItem :: "localStorage \<Rightarrow> int \<Rightarrow> jstring \<Rightarrow> jsval \<Rightarrow> localStorage" where
  "setItem ls now name v =
     ls(name \<mapsto> (case stringify (envelope v now) of Some t \<Rightarrow> t | None \<Rightarrow> js ''undefined''))"

text \<open>\<open>removeItem\<close> (lines 50-52).\<close>

definition removeItem :: "localStorage \<Rightarrow> jstring \<Rightarrow> localStorage" where
  "removeItem ls name = ls(name := None)"

text \<open>
  \<open>getItem\<close> (lines 32-45).  The destructuring \<open>{ value, timestamp } = JSON.parse(item)\<close>
  raises a \<open>TypeError\<close> on \<open>null\<close> and reads two properties otherwise; a property that is
  missing, or any property of a value that is not an object, is \<open>undefined\<close>.  In the test
  \<open>now - timestamp > EXPIRATION_TIME\<close> an \<open>undefined\<close> timestamp gives \<open>NaN\<close>, so the test is
  false; \<open>null\<close> counts as 0, \<open>false\<close> and \<open>true\<close> as 0 and 1.  The test \<open>!item\<close> holds for a
  missing entry and for the empty string.
\<close>

definition getProperty :: "jsval \<Rightarrow> jstring \<Rightarrow> jsval" where
  "getProperty obj k =
     (case obj of
        VObj kvs \<Rightarrow> (case map_of kvs k of Some v \<Rightarrow> v | None \<Rightarrow> VUndefined)
      | _ \<Rightarrow> VUndefined)"

definition expired :: "int \<Rightarrow> jsval \<Rightarrow> bool option" where
  "expired now timestamp =
     (case timestamp of
        VNum t \<Rightarrow> Some (now - t > EXPIRATION_TIME)
      | VUndefined \<Rightarrow> Some False
      | VNull \<Rightarrow> Some (now - 0 > EXPIRATION_TIME)
      | VBool b \<Rightarrow> Some (now - (if b then 1 else 0) > EXPIRATION_TIME)
      | _ \<Rightarrow> None)"

definition getItem :: "localStorage \<Rightarrow> int \<Rightarrow> jstring \<Rightarrow> localStorage \<times> outcome" where
  "getItem ls now name =
     (case ls name of
        None \<Rightarrow> (ls, Returned VNull)
      | Some item \<Rightarrow>
          if item = [] then (ls, Returned VNull)
          else
            (case JSON_parse item of
               SyntaxErr \<Rightarrow> (ls, Raised SyntaxError)
             | Unsupported \<Rightarrow> (ls, Unmodelled)
             | OutOfFuel \<Rightarrow> (ls, Unmodelled)
             | Parsed obj \<Rightarrow>
                 if obj = VNull \<or> obj = VUndefined then (ls, Raised TypeError)
                 else
                   (let v = getProperty obj (js ''value'');
                        timestamp = getProperty obj (js ''timestamp'')
                    in case expired now timestamp of
                         None \<Rightarrow> (ls, Unmodelled)
                       | Some True \<Rightarrow> (ls(name := None), Returned VNull)
                       | Some False \<Rightarrow> (ls, Returned v))))"

subsection \<open>Values that JSON represents\<close>

text \<open>
  A value without \<open>undefined\<close> anywhere inside, and whose objects have pairwise distinct
  property names.
\<close>

fun plain :: "jsval \<Rightarrow> bool" where
  "plain VUndefined = False"
| "plain VNull = True"
| "plain (VBool b) = True"
| "plain (VNum n) = True"
| "plain (VStr s) = True"
| "plain (VArr xs) = list_all plain xs"
| "plain (VObj kvs) = (distinct (map fst kvs) \<and> list_all (\<lambda>kv. plain (snd kv)) kvs)"

text \<open>
  The value that the JSON text of a value stands for, following the serialiser case by
  case: an \<open>undefined\<close> element of an array is \<open>null\<close>, an \<open>undefined\<close> property of an object
  is absent, everything else is kept.  It is what a reader of the text gets back.
\<close>

fun jsonImage :: "jsval \<Rightarrow> jsval"
  and imageElements :: "jsval list \<Rightarrow> jsval list"
  and imageMembers :: "(jstring \<times> jsval) list \<Rightarrow> (jstring \<times> jsval) list \<Rightarrow> (jstring \<times> jsval) list"
  where
  "jsonImage VUndefined = VUndefined"
| "jsonImage VNull = VNull"
| "jsonImage (VBool b) = VBool b"
| "jsonImage (VNum n) = VNum n"
| "jsonImage (VStr s) = VStr s"
| "jsonImage (VArr xs) = VArr (imageElements xs)"
| "jsonImage (VObj kvs) = VObj (imageMembers [] kvs)"
| "imageElements [] = []"
| "imageElements (x # xs) =
     (case stringify x of None \<Rightarrow> VNull | Some t \<Rightarrow> jsonImage x) # imageElements xs"
| "imageMembers acc [] = acc"
| "imageMembers acc ((k, v) # kvs) =
     (case stringify v of
        None \<Rightarrow> imageMembers acc kvs
      | Some t \<Rightarrow> imageMembers (put k (jsonImage v) acc) kvs)"

subsection \<open>Auxiliary notions for the proofs and example data\<close>

text \<open>A value inside a serialised text is followed by a comma, a closing bracket or brace, or nothing.\<close>

definition delimited :: "jstring \<Rightarrow> bool" where
  "delimited rest = (rest = [] \<or> hd rest = 0x2C \<or> hd rest = 0x5D \<or> hd rest = 0x7D)"

text \<open>A parse outcome that did not run out of fuel and left no more text than it was given.\<close>

definition within :: "('a \<times> jstring) parsed \<Rightarrow> jstring \<Rightarrow> bool" where
  "within res s =
     (case res of
        Parsed (v, r) \<Rightarrow> length r \<le> length s
      | OutOfFuel \<Rightarrow> False
      | _ \<Rightarrow> True)"

text \<open>A persisted feed state, the key the store uses (line 95), and a cut-off entry.\<close>

definition feedValue :: jsval where
  "feedValue = VObj [(js ''searchQuery'', VStr (js ''foo'')),
                     (js ''stories'', VArr [VObj [(js ''id'', VNum 3), (js ''time'', VNum 200)]]),
                     (js ''page'', VNum 2)]"

text \<open>A state object with one of the store's actions as a property.\<close>

definition stateWithAction :: jsval where
  "stateWithAction = VObj [(js ''page'', VNum 1), (js ''setPage'', VUndefined)]"

definition storeKey :: jstring where
  "storeKey = js ''ui-store''"


section \<open>Properties of the array helpers\<close>

lemma findIndex_range:
  "findIndex P xs = - 1 \<or> (0 \<le> findIndex P xs \<and> findIndex P xs < int (length xs))"
  by (induction xs) (auto simp: Let_def)

lemma findIndex_none: "(findIndex P xs = - 1) = (\<forall>x \<in> set xs. \<not> P x)"
proof (induction xs)
  case Nil
  then show ?case by simp
next
  case (Cons a xs)
  then show ?case using findIndex_range[of P xs] by (auto simp: Let_def)
qed

lemma findIndex_append:
  "findIndex P (pre @ ys) =
     (if \<exists>p \<in> set pre. P p then findIndex P pre
      else if findIndex P ys = - 1 then - 1 else int (length pre) + findIndex P ys)"
proof (induction pre)
  case Nil
  then show ?case by simp
next
  case (Cons a pre)
  then show ?case
    using findIndex_none[of P pre] findIndex_none[of P ys] findIndex_range[of P ys]
    by (auto simp: Let_def)
qed

text \<open>An element sits at the first index of its key exactly when no earlier element has the key.\<close>

lemma findIndex_own:
  "(findIndex (\<lambda>s. f s = f x) (pre @ x # xs) = int (length pre)) = (f x \<notin> f ` set pre)"
proof (cases "f x \<in> f ` set pre")
  case True
  then have ex: "\<exists>p \<in> set pre. f p = f x" by auto
  then have "findIndex (\<lambda>s. f s = f x) pre \<noteq> - 1" by (simp add: findIndex_none)
  then have "findIndex (\<lambda>s. f s = f x) pre < int (length pre)"
    using findIndex_range[of "\<lambda>s. f s = f x" pre] by auto
  with True ex show ?thesis by (simp add: findIndex_append)
next
  case False
  then have "\<not> (\<exists>p \<in> set pre. f p = f x)" by (metis image_eqI)
  with False show ?thesis by (simp add: findIndex_append)
qed

lemma dedupe_suffix:
  "map fst (filter (\<lambda>(x, i). findIndex (\<lambda>s. id' s = id' x) (pre @ xs) = int i)
       (zip xs [length pre..<length pre + length xs]))
   = keep_first (id' ` set pre) xs"
proof (induction xs arbitrary: pre)
  case Nil
  then show ?case by simp
next
  case (Cons x xs)
  have up: "[length pre..<length pre + length (x # xs)]
        = length pre # [length (pre @ [x])..<length (pre @ [x]) + length xs]"
    by (subst upt_rec) simp
  have ih: "map fst (filter (\<lambda>(y, i). findIndex (\<lambda>s. id' s = id' y) (pre @ x # xs) = int i)
       (zip xs [length (pre @ [x])..<length (pre @ [x]) + length xs]))
     = keep_first (id' ` set (pre @ [x])) xs"
    using Cons.IH[of "pre @ [x]"] by simp
  show ?case
  proof (cases "id' x \<in> id' ` set pre")
    case True
    then have absorb: "id' ` set (pre @ [x]) = id' ` set pre" by auto
    from True show ?thesis
      unfolding up using ih findIndex_own[of id' x pre xs] absorb by simp
  next
    case False
    have ins: "id' ` set (pre @ [x]) = insert (id' x) (id' ` set pre)" by auto
    from False show ?thesis
      unfolding up using ih findIndex_own[of id' x pre xs] ins by simp
  qed
qed

text \<open>The index-based filter of the source is the specification's keep-first walk.\<close>

lemma dedupe_keep_first: "dedupe xs = keep_first {} xs"
  using dedupe_suffix[of "[]" xs] by (simp add: dedupe_def filter_indexed_def)

lemma insert_by_insort: "insert_by (\<lambda>a b. f b - f a) x ys = insort_key (\<lambda>s. - f s) x ys"
  for f :: "'a \<Rightarrow> int"
  by (induction ys) auto

lemma sort_by_sort_key: "sort_by (\<lambda>a b. f b - f a) xs = sort_key (\<lambda>s. - f s) xs"
  for f :: "'a \<Rightarrow> int"
  by (induction xs) (auto simp: sort_by_def insert_by_insort)

lemma keep_first_subset: "set (keep_first seen xs) \<subseteq> set xs"
  by (induction xs arbitrary: seen) auto

lemma keep_first_ids: "id' ` set (keep_first seen xs) = id' ` set xs - seen"
  by (induction xs arbitrary: seen) auto

lemma keep_first_distinct: "distinct (map id' (keep_first seen xs))"
  by (induction xs arbitrary: seen) (auto simp: keep_first_ids)

lemma keep_first_append:
  "keep_first seen (xs @ ys) = keep_first seen xs @ keep_first (seen \<union> id' ` set xs) ys"
proof (induction xs arbitrary: seen)
  case Nil
  then show ?case by simp
next
  case (Cons a xs)
  show ?case
  proof (cases "id' a \<in> seen")
    case True
    then have "seen \<union> id' ` set (a # xs) = seen \<union> id' ` set xs" by auto
    with True Cons.IH[of seen] show ?thesis by simp
  next
    case False
    have "seen \<union> id' ` set (a # xs) = insert (id' a) seen \<union> id' ` set xs" by auto
    with False Cons.IH[of "insert (id' a) seen"] show ?thesis by simp
  qed
qed

lemma keep_first_all_seen: "id' ` set xs \<subseteq> seen \<Longrightarrow> keep_first seen xs = []"
  by (induction xs arbitrary: seen) auto

lemma keep_first_unchanged:
  "distinct (map id' xs) \<Longrightarrow> id' ` set xs \<inter> seen = {} \<Longrightarrow> keep_first seen xs = xs"
  by (induction xs arbitrary: seen) auto

text \<open>Every kept item is the first item of the input that carries its id.\<close>

lemma keep_first_find:
  "x \<in> set (keep_first seen xs) \<Longrightarrow> List.find (\<lambda>s. id' s = id' x) xs = Some x"
proof (induction xs arbitrary: seen)
  case Nil
  then show ?case by simp
next
  case (Cons a xs)
  show ?case
  proof (cases "id' a \<in> seen")
    case True
    with Cons.prems have mem: "x \<in> set (keep_first seen xs)" by simp
    then have "id' x \<in> id' ` set xs - seen" using keep_first_ids[of seen xs] by blast
    with True have "id' a \<noteq> id' x" by auto
    with Cons.IH[OF mem] show ?thesis by simp
  next
    case False
    with Cons.prems have "x = a \<or> x \<in> set (keep_first (insert (id' a) seen) xs)" by auto
    then show ?thesis
    proof
      assume "x = a"
      then show ?thesis by simp
    next
      assume mem: "x \<in> set (keep_first (insert (id' a) seen) xs)"
      then have "id' x \<in> id' ` set xs - insert (id' a) seen"
        using keep_first_ids[of "insert (id' a) seen" xs] by blast
      then have "id' a \<noteq> id' x" by auto
      with Cons.IH[OF mem] show ?thesis by simp
    qed
  qed
qed

lemma updatedStories_eq:
  "updatedStories existing batch = sort_key (\<lambda>s. - time s) (keep_first {} (existing @ batch))"
  by (simp add: updatedStories_def sort_by_sort_key dedupe_keep_first)

lemma updatedStories_set: "set (updatedStories existing batch) = set (keep_first {} (existing @ batch))"
  by (simp add: updatedStories_eq)

lemma updatedStories_distinct: "distinct (map id' (updatedStories existing batch))"
proof -
  have "distinct (map id' (keep_first {} (existing @ batch)))" by (rule keep_first_distinct)
  then show ?thesis by (simp add: updatedStories_eq distinct_map)
qed

lemma updatedStories_ids:
  "id' ` set (updatedStories existing batch) = id' ` set (existing @ batch)"
  using keep_first_ids[of "{}" "existing @ batch"] by (simp add: updatedStories_set)

lemma updatedStories_sorted: "sorted (map (\<lambda>s. - time s) (updatedStories existing batch))"
  by (simp add: updatedStories_eq sorted_sort_key)

lemma updatedStories_idem:
  "updatedStories (updatedStories existing batch) batch = updatedStories existing batch"
proof -
  let ?L = "updatedStories existing batch"
  have ids: "id' ` set batch \<subseteq> {} \<union> id' ` set ?L"
    using updatedStories_ids[of existing batch] by auto
  have "keep_first {} (?L @ batch) = keep_first {} ?L @ keep_first ({} \<union> id' ` set ?L) batch"
    by (rule keep_first_append)
  also have "keep_first ({} \<union> id' ` set ?L) batch = []"
    using ids by (rule keep_first_all_seen)
  also have "keep_first {} ?L = ?L"
    by (rule keep_first_unchanged) (simp_all add: updatedStories_distinct)
  finally have kf: "keep_first {} (?L @ batch) = ?L" by simp
  have "updatedStories ?L batch = sort_key (\<lambda>s. - time s) ?L"
    by (simp add: updatedStories_eq[of ?L batch] kf)
  also have "\<dots> = ?L"
    by (rule sort_key_id_if_sorted) (rule updatedStories_sorted)
  finally show ?thesis .
qed

lemma updatedStories_adjacent:
  assumes "Suc i < length (updatedStories existing batch)"
  shows "time (updatedStories existing batch ! Suc i) \<le> time (updatedStories existing batch ! i)"
proof -
  let ?r = "updatedStories existing batch"
  have "sorted_wrt (\<lambda>a b. - time a \<le> - time b) ?r"
    using updatedStories_sorted[of existing batch] by (simp add: sorted_map)
  then have "- time (?r ! i) \<le> - time (?r ! Suc i)"
    using assms by (simp add: sorted_wrt_iff_nth_less)
  then show ?thesis by simp
qed

lemma updatedStories_stable:
  "filter (\<lambda>s. time s = t) (updatedStories existing batch)
   = filter (\<lambda>s. time s = t) (dedupe (existing @ batch))"
proof -
  have "filter (\<lambda>s. - time s = - t) (sort_key (\<lambda>s. - time s) (dedupe (existing @ batch)))
      = filter (\<lambda>s. - time s = - t) (dedupe (existing @ batch))"
    by (rule sort_key_stable)
  then show ?thesis by (simp add: updatedStories_def sort_by_sort_key)
qed


section \<open>The feed state: the claims\<close>

lemma find_append_first:
  "List.find P (xs @ ys) = (case List.find P xs of None \<Rightarrow> List.find P ys | Some x \<Rightarrow> Some x)"
  by (induction xs) auto

text \<open>
  Claim C1.  A merge into either collection concatenates the batch after the existing
  items and keeps, for every id, the first item carrying it in that concatenated order:
  the new list is the keep-first walk of the concatenation (then sorted), no id is lost,
  every surviving item is the first item of the concatenation with its id, and so an item
  whose id already occurs among the existing items is one of the existing items.  With the
  existing item of id 1 and score 10 and the batch item of id 1 and score 99, the item left
  has score 10 (the witness below).
\<close>

theorem merge_first_occurrence_wins:
  "stories (addStories st batch) = sort_key (\<lambda>s. - time s) (keep_first {} (stories st @ batch))
   \<and> searchStories (addSearchStories st batch)
       = sort_key (\<lambda>s. - time s) (keep_first {} (searchStories st @ batch))
   \<and> id' ` set (stories (addStories st batch)) = id' ` set (stories st @ batch)
   \<and> id' ` set (searchStories (addSearchStories st batch)) = id' ` set (searchStories st @ batch)
   \<and> (\<forall>x \<in> set (stories (addStories st batch)).
         List.find (\<lambda>s. id' s = id' x) (stories st @ batch) = Some x)
   \<and> (\<forall>x \<in> set (searchStories (addSearchStories st batch)).
         List.find (\<lambda>s. id' s = id' x) (searchStories st @ batch) = Some x)
   \<and> (\<forall>e \<in> set (stories st). \<forall>x \<in> set (stories (addStories st batch)).
         id' x = id' e \<longrightarrow> x \<in> set (stories st))
   \<and> (\<forall>e \<in> set (searchStories st). \<forall>x \<in> set (searchStories (addSearchStories st batch)).
         id' x = id' e \<longrightarrow> x \<in> set (searchStories st))"
proof -
  have surv: "\<forall>x \<in> set (updatedStories ex batch). List.find (\<lambda>s. id' s = id' x) (ex @ batch) = Some x"
    for ex
    using keep_first_find[of _ "{}" "ex @ batch"] by (simp add: updatedStories_set)
  have own: "\<forall>e \<in> set ex. \<forall>x \<in> set (updatedStories ex batch). id' x = id' e \<longrightarrow> x \<in> set ex"
    for ex
  proof (intro ballI impI)
    fix e x
    assume e: "e \<in> set ex" and x: "x \<in> set (updatedStories ex batch)" and eq: "id' x = id' e"
    from x surv have f: "List.find (\<lambda>s. id' s = id' x) (ex @ batch) = Some x" by blast
    from e eq have "\<exists>s \<in> set ex. id' s = id' x" by auto
    then obtain y where y: "List.find (\<lambda>s. id' s = id' x) ex = Some y"
      by (cases "List.find (\<lambda>s. id' s = id' x) ex") (auto simp: find_None_iff)
    with f have "y = x" by (simp add: find_append_first)
    with y show "x \<in> set ex" by (auto simp: find_Some_iff)
  qed
  show ?thesis
    using surv[of "stories st"] surv[of "searchStories st"] own[of "stories st"]
      own[of "searchStories st"]
    by (simp add: addStories_def addSearchStories_def updatedStories_eq[symmetric]
        updatedStories_ids del: set_append)
qed

text \<open>
  The specification's example for C1, through the theorem.
\<close>

theorem merge_first_occurrence_wins_witness:
  "story1 \<in> set (stories (initialState\<lparr>stories := [story1]\<rparr>))
   \<and> stories (addStories (initialState\<lparr>stories := [story1]\<rparr>) [story1']) = [story1]
   \<and> map score (stories (addStories (initialState\<lparr>stories := [story1]\<rparr>) [story1'])) = [10]
   \<and> searchStories (addSearchStories (initialState\<lparr>searchStories := [story1]\<rparr>) [story1']) = [story1]
   \<and> List.find (\<lambda>s. id' s = id' story1) ([story1] @ [story1']) = Some story1"
  using merge_first_occurrence_wins[of "initialState\<lparr>stories := [story1]\<rparr>" "[story1']"]
    merge_first_occurrence_wins[of "initialState\<lparr>searchStories := [story1]\<rparr>" "[story1']"]
  by (simp add: initialState_def story1_def story1'_def)

text \<open>
  Claim C2.  Merging the same batch a second time changes nothing (the whole state, hence
  the item set, is the same as after one merge), and after a merge the ids of the
  collection are pairwise distinct.
\<close>

theorem merge_idempotent_and_unique:
  "addStories (addStories st batch) batch = addStories st batch
   \<and> addSearchStories (addSearchStories st batch) batch = addSearchStories st batch
   \<and> distinct (map id' (stories (addStories st batch)))
   \<and> distinct (map id' (searchStories (addSearchStories st batch)))"
  by (simp add: addStories_def addSearchStories_def updatedStories_idem updatedStories_distinct)

text \<open>
  Claim C3.  After a merge the list is sorted by \<open>time\<close>, newest first: every earlier item
  has a time at least that of every later one, in particular every adjacent pair; and for
  each time value the items carrying it appear in the order the de-duplication step left
  them in (the sort is stable).
\<close>

theorem merge_sorted_newest_first_stable:
  "sorted_wrt (\<lambda>a b. time a \<ge> time b) (stories (addStories st batch))
   \<and> sorted_wrt (\<lambda>a b. time a \<ge> time b) (searchStories (addSearchStories st batch))
   \<and> (\<forall>i. Suc i < length (stories (addStories st batch)) \<longrightarrow>
          time (stories (addStories st batch) ! i) \<ge> time (stories (addStories st batch) ! Suc i))
   \<and> (\<forall>i. Suc i < length (searchStories (addSearchStories st batch)) \<longrightarrow>
          time (searchStories (addSearchStories st batch) ! i)
            \<ge> time (searchStories (addSearchStories st batch) ! Suc i))
   \<and> (\<forall>t. filter (\<lambda>s. time s = t) (stories (addStories st batch))
            = filter (\<lambda>s. time s = t) (dedupe (stories st @ batch)))
   \<and> (\<forall>t. filter (\<lambda>s. time s = t) (searchStories (addSearchStories st batch))
            = filter (\<lambda>s. time s = t) (dedupe (searchStories st @ batch)))"
proof -
  have srt: "sorted_wrt (\<lambda>a b. time a \<ge> time b) (updatedStories ex batch)" for ex
    using updatedStories_sorted[of ex batch] by (simp add: sorted_map)
  show ?thesis
    using srt[of "stories st"] srt[of "searchStories st"]
    by (simp add: addStories_def addSearchStories_def updatedStories_adjacent
        updatedStories_stable)
qed

text \<open>
  A merge with a tie at time 100: the two tied items keep their order.
\<close>

theorem merge_sorted_newest_first_stable_witness:
  "Suc 0 < length (stories (addStories initialState [storyA, storyB, storyC]))
   \<and> stories (addStories initialState [storyA, storyB, storyC]) = [storyB, storyA, storyC]
   \<and> time (stories (addStories initialState [storyA, storyB, storyC]) ! 0)
       \<ge> time (stories (addStories initialState [storyA, storyB, storyC]) ! Suc 0)
   \<and> filter (\<lambda>s. time s = 100) (stories (addStories initialState [storyA, storyB, storyC]))
       = [storyA, storyC]"
  using merge_sorted_newest_first_stable[of initialState "[storyA, storyB, storyC]"]
  by (simp add: initialState_def addStories_def updatedStories_eq storyA_def storyB_def storyC_def)

text \<open>
  Claim C4.  \<open>setSearchQuery\<close> with the current query returns the state unchanged; with a
  different query it stores the query, empties the search items and sets the search cursor
  to 1.  The primary items and the primary cursor are the same in both cases.
\<close>

theorem setSearchQuery_effect:
  "(newQuery = searchQuery st \<longrightarrow> setSearchQuery st newQuery = st)
   \<and> (newQuery \<noteq> searchQuery st \<longrightarrow>
        setSearchQuery st newQuery = st\<lparr> searchQuery := newQuery, searchStories := [], searchPage := 1 \<rparr>
        \<and> searchQuery (setSearchQuery st newQuery) = newQuery
        \<and> searchStories (setSearchQuery st newQuery) = []
        \<and> searchPage (setSearchQuery st newQuery) = 1)
   \<and> stories (setSearchQuery st newQuery) = stories st
   \<and> page (setSearchQuery st newQuery) = page st"
  by (simp add: setSearchQuery_def)

text \<open>
  The queries foo then bar on a state with search results, and foo on a state whose query is foo.
\<close>

theorem setSearchQuery_effect_witness:
  "js ''bar'' \<noteq> searchQuery (setSearchQuery (initialState\<lparr>searchStories := [storyA], searchPage := 4\<rparr>) (js ''foo''))
   \<and> searchStories (setSearchQuery (setSearchQuery (initialState\<lparr>searchStories := [storyA], searchPage := 4\<rparr>) (js ''foo'')) (js ''bar'')) = []
   \<and> searchPage (setSearchQuery (setSearchQuery (initialState\<lparr>searchStories := [storyA], searchPage := 4\<rparr>) (js ''foo'')) (js ''bar'')) = 1
   \<and> js ''foo'' = searchQuery (initialState\<lparr>searchQuery := js ''foo'', searchStories := [storyA], searchPage := 4\<rparr>)
   \<and> setSearchQuery (initialState\<lparr>searchQuery := js ''foo'', searchStories := [storyA], searchPage := 4\<rparr>) (js ''foo'')
       = initialState\<lparr>searchQuery := js ''foo'', searchStories := [storyA], searchPage := 4\<rparr>"
  using setSearchQuery_effect[of "js ''bar''" "setSearchQuery (initialState\<lparr>searchStories := [storyA], searchPage := 4\<rparr>) (js ''foo'')"]
    setSearchQuery_effect[of "js ''foo''" "initialState\<lparr>searchQuery := js ''foo'', searchStories := [storyA], searchPage := 4\<rparr>"]
  by (simp add: initialState_def setSearchQuery_def js_def)

text \<open>
  Claim C5 does not hold of \<open>setPage\<close>: it stores the number it is given.  From the
  initial state, \<open>setPage 5\<close> then \<open>setPage 3\<close> leaves the cursor at 3, which is neither
  5 + 1 nor at least 5, while the query and the items are untouched.
\<close>

theorem setPage_not_increment_counterexample:
  "page (setPage (setPage initialState 5) 3) \<noteq> page (setPage initialState 5) + 1
   \<and> page (setPage (setPage initialState 5) 3) < page (setPage initialState 5)
   \<and> searchQuery (setPage (setPage initialState 5) 3) = searchQuery (setPage initialState 5)
   \<and> stories (setPage (setPage initialState 5) 3) = stories (setPage initialState 5)"
  by (simp add: setPage_def initialState_def)

text \<open>
  Claim C5, amended.  \<open>setPage\<close> and \<open>setSearchPage\<close> set their cursor to exactly the
  number passed and change nothing else, so a caller passing the current cursor plus one
  advances it by one; no other action changes the primary cursor; the search cursor is
  changed otherwise only by \<open>setSearchQuery\<close>, which sets it to 1 when the query differs;
  merging and resetting the items leave both cursors as they are.
\<close>

theorem cursor_setters:
  "page (setPage st p) = p
   \<and> searchPage (setSearchPage st p) = p
   \<and> setPage st p = st\<lparr> page := p \<rparr>
   \<and> setSearchPage st p = st\<lparr> searchPage := p \<rparr>
   \<and> page (setPage st (page st + 1)) = page st + 1
   \<and> searchPage (setSearchPage st (searchPage st + 1)) = searchPage st + 1
   \<and> page (setSearchQuery st q) = page st
   \<and> searchPage (setSearchQuery st q) = (if q \<noteq> searchQuery st then 1 else searchPage st)
   \<and> page (addStories st batch) = page st \<and> searchPage (addStories st batch) = searchPage st
   \<and> page (addSearchStories st batch) = page st
   \<and> searchPage (addSearchStories st batch) = searchPage st
   \<and> page (resetStories st) = page st \<and> searchPage (resetStories st) = searchPage st
   \<and> page (resetSearchStories st) = page st
   \<and> searchPage (resetSearchStories st) = searchPage st
   \<and> page (setSearchPage st p) = page st
   \<and> searchPage (setPage st p) = searchPage st"
  by (simp add: setPage_def setSearchPage_def setSearchQuery_def addStories_def
      addSearchStories_def resetStories_def resetSearchStories_def)

text \<open>
  Claim C9.  The comparison in \<open>setSearchQuery\<close> is on the strings as given: a new query
  that differs from the current one only by surrounding white space is a change, so the
  query is replaced, the search items are emptied and the search cursor is set to 1.
\<close>

theorem setSearchQuery_raw_comparison:
  "q' \<noteq> searchQuery st \<Longrightarrow> trim q' = trim (searchQuery st) \<Longrightarrow>
     setSearchQuery st q' \<noteq> st
     \<and> searchQuery (setSearchQuery st q') = q'
     \<and> searchStories (setSearchQuery st q') = []
     \<and> searchPage (setSearchQuery st q') = 1"
  by (auto simp: setSearchQuery_def dest: arg_cong[where f = searchQuery])

text \<open>
  The two examples of C9: foo against foo with a trailing blank, and the empty query against a single blank.
\<close>

theorem setSearchQuery_raw_comparison_witness:
  "js ''foo '' \<noteq> searchQuery (initialState\<lparr>searchQuery := js ''foo'', searchStories := [storyA], searchPage := 4\<rparr>)
   \<and> trim (js ''foo '') = trim (searchQuery (initialState\<lparr>searchQuery := js ''foo'', searchStories := [storyA], searchPage := 4\<rparr>))
   \<and> searchQuery (setSearchQuery (initialState\<lparr>searchQuery := js ''foo'', searchStories := [storyA], searchPage := 4\<rparr>) (js ''foo '')) = js ''foo ''
   \<and> searchStories (setSearchQuery (initialState\<lparr>searchQuery := js ''foo'', searchStories := [storyA], searchPage := 4\<rparr>) (js ''foo '')) = []
   \<and> searchPage (setSearchQuery (initialState\<lparr>searchQuery := js ''foo'', searchStories := [storyA], searchPage := 4\<rparr>) (js ''foo '')) = 1
   \<and> js '' '' \<noteq> searchQuery (initialState\<lparr>searchStories := [storyA], searchPage := 4\<rparr>)
   \<and> trim (js '' '') = trim (searchQuery (initialState\<lparr>searchStories := [storyA], searchPage := 4\<rparr>))
   \<and> setSearchQuery (initialState\<lparr>searchStories := [storyA], searchPage := 4\<rparr>) (js '' '')
      = initialState\<lparr>searchQuery := js '' '', searchStories := [], searchPage := 1\<rparr>"
  using setSearchQuery_raw_comparison[of "js ''foo ''" "initialState\<lparr>searchQuery := js ''foo'', searchStories := [storyA], searchPage := 4\<rparr>"]
    setSearchQuery_raw_comparison[of "js '' ''" "initialState\<lparr>searchStories := [storyA], searchPage := 4\<rparr>"]
  by (simp add: initialState_def setSearchQuery_def js_def trim_def isTrimSpace_def)

text \<open>
  Claim C10.  A merge into the primary collection leaves the search items, both cursors
  and the query unchanged; a merge into the search collection leaves the primary items,
  both cursors and the query unchanged.
\<close>

theorem merge_frame:
  "searchStories (addStories st batch) = searchStories st
   \<and> searchPage (addStories st batch) = searchPage st
   \<and> page (addStories st batch) = page st
   \<and> searchQuery (addStories st batch) = searchQuery st
   \<and> stories (addSearchStories st batch) = stories st
   \<and> page (addSearchStories st batch) = page st
   \<and> searchPage (addSearchStories st batch) = searchPage st
   \<and> searchQuery (addSearchStories st batch) = searchQuery st"
  by (simp add: addStories_def addSearchStories_def)


section \<open>Printing and reading integers\<close>

lemma unat_digitChar: "d < 10 \<Longrightarrow> unat (digitChar d) = 48 + d"
  unfolding digitChar_def by (rule of_nat_inverse[OF refl]) simp

lemma digitValue_digitChar: "d < 10 \<Longrightarrow> digitValue (digitChar d) = d"
  by (simp add: digitValue_def unat_digitChar)

lemma isDigit_digitChar: "d < 10 \<Longrightarrow> isDigit (digitChar d)"
  by (simp add: isDigit_def word_le_nat_alt unat_digitChar)

lemma digitChar_zero: "d < 10 \<Longrightarrow> (digitChar d = 0x30) = (d = 0)"
proof
  assume "d < 10" and "digitChar d = 0x30"
  then have "unat (digitChar d) = 48" by simp
  with \<open>d < 10\<close> show "d = 0" by (simp add: unat_digitChar)
next
  assume "d = 0"
  then show "digitChar d = 0x30" by (simp add: digitChar_def)
qed

lemma digits_all: "\<forall>c \<in> set (digits n). isDigit c"
  by (induction n rule: digits.induct) (subst digits.simps, simp add: isDigit_digitChar)

lemma digits_nonempty: "digits n \<noteq> []"
  by (subst digits.simps) simp

lemma digitsValue_append: "digitsValue (xs @ [c]) = 10 * digitsValue xs + digitValue c"
  by (simp add: digitsValue_def)

lemma digitsValue_digits: "digitsValue (digits n) = n"
proof (induction n rule: digits.induct)
  case (1 n)
  show ?case
  proof (cases "n < 10")
    case True
    then show ?thesis by (subst digits.simps) (simp add: digitsValue_def digitValue_digitChar)
  next
    case False
    with 1 have "digitsValue (digits (n div 10)) = n div 10" by simp
    with False show ?thesis
      by (subst digits.simps) (simp add: digitsValue_append digitValue_digitChar)
  qed
qed

lemma digits_hd: "hd (digits n) = 0x30 \<Longrightarrow> n = 0"
proof (induction n rule: digits.induct)
  case (1 n)
  show ?case
  proof (cases "n < 10")
    case True
    with "1.prems" show ?thesis by (subst (asm) digits.simps) (simp add: digitChar_zero)
  next
    case False
    with "1.prems" have "hd (digits (n div 10)) = 0x30"
      by (subst (asm) digits.simps) (simp add: digits_nonempty)
    with 1 False have "n div 10 = 0" by simp
    with False show ?thesis by simp
  qed
qed

lemma delimited_cases:
  assumes "delimited rest"
  obtains "rest = []" | c r where "rest = c # r" "c = 0x2C \<or> c = 0x5D \<or> c = 0x7D"
  using assms by (cases rest) (auto simp: delimited_def)

lemma run_of_digits:
  assumes "\<forall>c \<in> set ds. isDigit c" and "delimited rest"
  shows "takeWhile isDigit (ds @ rest) = ds" and "dropWhile isDigit (ds @ rest) = rest"
proof -
  from assms(2) have stop: "takeWhile isDigit rest = [] \<and> dropWhile isDigit rest = rest"
    by (rule delimited_cases) (auto simp: isDigit_def)
  from assms(1) stop show "takeWhile isDigit (ds @ rest) = ds"
    by (simp add: takeWhile_append2)
  from assms(1) stop show "dropWhile isDigit (ds @ rest) = rest"
    by (simp add: dropWhile_append2)
qed

lemma parseNat_digits:
  assumes "delimited rest"
  shows "parseNat (digits n @ rest) = Parsed (n, rest)"
proof -
  obtain c ds where split: "digits n = c # ds"
    using digits_nonempty[of n] by (cases "digits n") auto
  have dig: "\<forall>x \<in> set (digits n). isDigit x" by (rule digits_all)
  show ?thesis
  proof (cases "c = 0x30")
    case True
    with split have "hd (digits n) = 0x30" by simp
    then have "n = 0" by (rule digits_hd)
    then have "digits n = [0x30]" by (subst digits.simps) (simp add: digitChar_def)
    then show ?thesis using \<open>n = 0\<close> by (simp add: parseNat_def)
  next
    case False
    from dig split have "isDigit c" by simp
    with False split show ?thesis
      using run_of_digits[OF dig assms] digitsValue_digits[of n]
      by (simp add: parseNat_def)
  qed
qed

lemma numberEnd_delimited: "delimited rest \<Longrightarrow> numberEnd v rest = Parsed (v, rest)"
  by (erule delimited_cases) (auto simp: numberEnd_def)

lemma digits_no_minus: "hd (digits n) \<noteq> 0x2D"
proof -
  have "isDigit (hd (digits n))" using digits_all[of n] digits_nonempty[of n] by simp
  then show ?thesis by (auto simp: isDigit_def)
qed

lemma parseNumber_showInt:
  assumes "delimited rest"
  shows "parseNumber (showInt i @ rest) = Parsed (VNum i, rest)"
proof (cases "i < 0")
  case True
  then show ?thesis
    by (simp add: showInt_def parseNumber_def parseNat_digits[OF assms] numberEnd_delimited[OF assms])
next
  case False
  obtain c ds where split: "digits (nat i) = c # ds"
    using digits_nonempty[of "nat i"] by (cases "digits (nat i)") auto
  with digits_no_minus[of "nat i"] have "c \<noteq> 0x2D" by simp
  with False split show ?thesis
    using parseNat_digits[OF assms, of "nat i"]
    by (simp add: showInt_def parseNumber_def numberEnd_delimited[OF assms])
qed

lemma showInt_head: "showInt i = c # r \<Longrightarrow> c = 0x2D \<or> isDigit c"
  using digits_all[of "nat i"] by (auto simp: showInt_def split: if_splits)

lemma showInt_nonempty: "showInt i \<noteq> []"
  by (simp add: showInt_def digits_nonempty)

section \<open>Quoting and reading strings\<close>

lemma unat_hexChar: "d < 16 \<Longrightarrow> unat (hexChar d) = (if d < 10 then 48 + d else 87 + d)"
proof (cases "d < 10")
  case True
  have "unat (of_nat (48 + d) :: jchar) = 48 + d"
    using True by (intro of_nat_inverse[OF refl]) simp
  with True show ?thesis by (simp only: hexChar_def if_True)
next
  case False
  assume "d < 16"
  then have "unat (of_nat (87 + d) :: jchar) = 87 + d"
    by (intro of_nat_inverse[OF refl]) simp
  with False show ?thesis by (simp only: hexChar_def if_False)
qed

lemma hexValue_hexChar: "d < 16 \<Longrightarrow> hexValue (hexChar d) = Some d"
  by (simp add: hexValue_def word_le_nat_alt unat_hexChar)

lemma hex_digits_value:
  "((n div 4096 * 16 + n div 256 mod 16) * 16 + n div 16 mod 16) * 16 + n mod 16 = n"
  for n :: nat
proof -
  have a: "n div 4096 = n div 256 div 16" by (simp add: div_mult2_eq[symmetric])
  have b: "n div 256 = n div 16 div 16" by (simp add: div_mult2_eq[symmetric])
  have "n div 256 div 16 * 16 + n div 256 mod 16 = n div 256" by simp
  then have "(n div 4096 * 16 + n div 256 mod 16) * 16 + n div 16 mod 16
      = n div 256 * 16 + n div 16 mod 16" by (simp only: a)
  also have "\<dots> = n div 16" by (simp add: b)
  finally show ?thesis by simp
qed

lemma hex4_of_char:
  "hex4 (hexChar (unat c div 4096) # hexChar (unat c div 256 mod 16)
         # hexChar (unat c div 16 mod 16) # hexChar (unat c mod 16) # s) = Some c"
proof -
  have lt: "unat c < 65536" using unsigned_less[of c, where 'a = nat] by simp
  then have "unat c div 4096 < 16" by simp
  then show ?thesis
    using hex_digits_value[of "unat c"]
    by (simp add: hex4_def hexValue_hexChar)
qed

lemma stringBody_unicodeEscape:
  "stringBody (unicodeEscape c @ s) = bindp (stringBody s) (\<lambda>(t, rest). Parsed (c # t, rest))"
  unfolding unicodeEscape_def by (simp add: hex4_of_char)

lemma stringBody_literal:
  "c \<noteq> 0x22 \<Longrightarrow> c \<noteq> 0x5C \<Longrightarrow> \<not> c < 0x20 \<Longrightarrow>
   stringBody (c # s) = bindp (stringBody s) (\<lambda>(t, rest). Parsed (c # t, rest))"
  by simp

lemma stringBody_short:
  "unescape e = Some u \<Longrightarrow> e \<noteq> 0x75 \<Longrightarrow>
   stringBody (0x5C # e # s) = bindp (stringBody s) (\<lambda>(t, rest). Parsed (u # t, rest))"
  by simp

lemma surrogate_literal:
  "isLead c \<or> isTrail c \<Longrightarrow> c \<noteq> 0x22 \<and> c \<noteq> 0x5C \<and> \<not> c < 0x20"
  by (auto simp: isLead_def isTrail_def word_le_nat_alt word_less_nat_alt)

lemmas [simp del] = stringBody.simps(2)

lemma surrogate_not_special:
  "isLead c \<or> isTrail c \<Longrightarrow>
     c \<noteq> 0x08 \<and> c \<noteq> 0x09 \<and> c \<noteq> 0x0A \<and> c \<noteq> 0x0C \<and> c \<noteq> 0x0D \<and> c \<noteq> 0x22 \<and> c \<noteq> 0x5C
     \<and> \<not> c < 0x20"
  by (auto simp: isLead_def isTrail_def word_le_nat_alt word_less_nat_alt)

lemma lead_not_trail: "isLead c \<Longrightarrow> \<not> isTrail c"
  by (auto simp: isLead_def isTrail_def word_le_nat_alt)

lemma escape_control:
  "c \<noteq> 0x08 \<Longrightarrow> c \<noteq> 0x09 \<Longrightarrow> c \<noteq> 0x0A \<Longrightarrow> c \<noteq> 0x0C \<Longrightarrow> c \<noteq> 0x0D \<Longrightarrow> c < 0x20 \<Longrightarrow>
   escape (c # r) = unicodeEscape c @ escape r"
  by auto

lemma escape_pair: "isLead c \<Longrightarrow> isTrail d \<Longrightarrow> escape (c # d # r) = c # d # escape r"
  using surrogate_not_special[of c] by simp

lemma escape_lone_lead:
  "isLead c \<Longrightarrow> r = [] \<or> \<not> isTrail (hd r) \<Longrightarrow> escape (c # r) = unicodeEscape c @ escape r"
  using surrogate_not_special[of c] by (cases r) auto

lemma escape_lone_trail: "isTrail c \<Longrightarrow> escape (c # r) = unicodeEscape c @ escape r"
  using surrogate_not_special[of c] lead_not_trail[of c] by auto

lemma escape_literal:
  "c \<noteq> 0x08 \<Longrightarrow> c \<noteq> 0x09 \<Longrightarrow> c \<noteq> 0x0A \<Longrightarrow> c \<noteq> 0x0C \<Longrightarrow> c \<noteq> 0x0D \<Longrightarrow> c \<noteq> 0x22 \<Longrightarrow> c \<noteq> 0x5C \<Longrightarrow>
   \<not> c < 0x20 \<Longrightarrow> \<not> isLead c \<Longrightarrow> \<not> isTrail c \<Longrightarrow> escape (c # r) = c # escape r"
  by simp

lemma escape_short:
  "escape (0x08 # r) = [0x5C, 0x62] @ escape r"
  "escape (0x09 # r) = [0x5C, 0x74] @ escape r"
  "escape (0x0A # r) = [0x5C, 0x6E] @ escape r"
  "escape (0x0C # r) = [0x5C, 0x66] @ escape r"
  "escape (0x0D # r) = [0x5C, 0x72] @ escape r"
  "escape (0x22 # r) = [0x5C, 0x22] @ escape r"
  "escape (0x5C # r) = [0x5C, 0x5C] @ escape r"
  by simp_all

lemmas [simp del] = escape.simps(2)


lemma stringBody_escape: "stringBody (escape s @ 0x22 # rest) = Parsed (s, rest)"
proof (induction s rule: length_induct)
  case (1 s)
  then have IH: "\<And>t. length t < length s \<Longrightarrow> stringBody (escape t @ 0x22 # rest) = Parsed (t, rest)"
    by blast
  show ?case
  proof (cases s)
    case Nil
    then show ?thesis by (simp add: stringBody.simps(2))
  next
    case (Cons c r)
    then have ihr: "stringBody (escape r @ 0x22 # rest) = Parsed (r, rest)"
      using IH[of r] by simp
    show ?thesis
    proof (cases "c = 0x08 \<or> c = 0x09 \<or> c = 0x0A \<or> c = 0x0C \<or> c = 0x0D \<or> c = 0x22 \<or> c = 0x5C")
      case True
      then show ?thesis
        unfolding Cons using ihr
        by (elim disjE) (simp_all add: escape_short stringBody_short unescape_def)
    next
      case False
      then have ns: "c \<noteq> 0x08" "c \<noteq> 0x09" "c \<noteq> 0x0A" "c \<noteq> 0x0C" "c \<noteq> 0x0D" "c \<noteq> 0x22" "c \<noteq> 0x5C"
        by simp_all
      show ?thesis
      proof (cases "c < 0x20")
        case True
        with ns show ?thesis
          unfolding Cons using ihr by (simp add: escape_control stringBody_unicodeEscape)
      next
        case hi: False
        show ?thesis
        proof (cases "isLead c")
          case lead: True
          show ?thesis
          proof (cases "r = [] \<or> \<not> isTrail (hd r)")
            case True
            with lead show ?thesis
              unfolding Cons using ihr by (simp add: escape_lone_lead stringBody_unicodeEscape)
          next
            case False
            then obtain d r' where r: "r = d # r'" and d: "isTrail d" by (cases r) auto
            have "stringBody (escape r' @ 0x22 # rest) = Parsed (r', rest)"
              using IH[of r'] Cons r by simp
            moreover have "d \<noteq> 0x22 \<and> d \<noteq> 0x5C \<and> \<not> d < 0x20"
              using surrogate_literal[of d] d by simp
            ultimately show ?thesis
              unfolding Cons r using lead d ns hi by (simp add: escape_pair stringBody_literal)
          qed
        next
          case nolead: False
          show ?thesis
          proof (cases "isTrail c")
            case True
            then show ?thesis
              unfolding Cons using ihr by (simp add: escape_lone_trail stringBody_unicodeEscape)
          next
            case False
            with ns hi nolead show ?thesis
              unfolding Cons using ihr by (simp add: escape_literal stringBody_literal)
          qed
        qed
      qed
    qed
  qed
qed

lemma stringBody_quote: "stringBody (tl (quote s) @ rest) = Parsed (s, rest)"
  by (simp add: quote_def stringBody_escape)

lemma quote_shape: "quote s = 0x22 # tl (quote s)"
  by (simp add: quote_def)

section \<open>The parser on the characters that open a value\<close>

lemma skipWs_head: "\<not> isWs c \<Longrightarrow> skipWs (c # r) = c # r"
  by (simp add: skipWs_def)

lemma isDigit_not_ws: "isDigit c \<Longrightarrow> \<not> isWs c"
  by (auto simp: isDigit_def isWs_def)

lemma isDigit_other:
  "isDigit c \<Longrightarrow> c \<noteq> 0x5B \<and> c \<noteq> 0x7B \<and> c \<noteq> 0x22 \<and> c \<noteq> 0x5D \<and> c \<noteq> 0x7D \<and> c \<noteq> 0x2C"
  by (auto simp: isDigit_def)

lemma parseMore_comma:
  "parseMore (Suc n) acc (0x2C # r)
     = bindp (parseValue n r) (\<lambda>(v, rest). parseMore n (acc @ [v]) rest)"
  by (simp add: skipWs_def isWs_def)

lemma parseMore_close: "parseMore (Suc n) acc (0x5D # r) = Parsed (VArr acc, r)"
  by (simp add: skipWs_def isWs_def)

lemma parseValue_array_empty: "parseValue (Suc n) (0x5B # 0x5D # r) = Parsed (VArr [], r)"
  by (simp add: skipWs_def isWs_def)

lemma parseValue_array:
  "\<not> isWs d \<Longrightarrow> d \<noteq> 0x5D \<Longrightarrow>
   parseValue (Suc n) (0x5B # d # r)
     = bindp (parseValue n (d # r)) (\<lambda>(v, rest). parseMore n [v] rest)"
  by (simp add: skipWs_def isWs_def)

lemma parseValue_object_empty: "parseValue (Suc n) (0x7B # 0x7D # r) = Parsed (VObj [], r)"
  by (simp add: skipWs_def isWs_def)

lemma parseValue_object:
  "parseValue (Suc n) (0x7B # 0x22 # r) = parseMember n [] (0x22 # r)"
  by (simp add: skipWs_def isWs_def)

lemma parseValue_string:
  "parseValue (Suc n) (0x22 # r) = bindp (stringBody r) (\<lambda>(str, rest). Parsed (VStr str, rest))"
  by (simp add: skipWs_def isWs_def)

lemma parseValue_number:
  "c = 0x2D \<or> isDigit c \<Longrightarrow> parseValue (Suc n) (c # r) = parseNumber (c # r)"
  by (auto simp: skipWs_def isWs_def isDigit_def)

lemma parseValue_null: "parseValue (Suc n) (js ''null'' @ r) = Parsed (VNull, r)"
  by (simp add: js_def skipWs_def isWs_def isDigit_def parseLiteral_def)

lemma parseValue_true: "parseValue (Suc n) (js ''true'' @ r) = Parsed (VBool True, r)"
  by (simp add: js_def skipWs_def isWs_def isDigit_def parseLiteral_def)

lemma parseValue_false: "parseValue (Suc n) (js ''false'' @ r) = Parsed (VBool False, r)"
  by (simp add: js_def skipWs_def isWs_def isDigit_def parseLiteral_def)

lemma parseMember_key:
  "parseMember (Suc n) acc (quote k @ 0x3A # r2)
     = bindp (parseValue n r2) (\<lambda>(v, r3).
         case skipWs r3 of
           [] \<Rightarrow> SyntaxErr
         | e # r4 \<Rightarrow>
             if e = 0x2C then parseMember n (put k v acc) (skipWs r4)
             else if e = 0x7D then Parsed (VObj (put k v acc), r4)
             else SyntaxErr)"
  by (simp add: quote_def stringBody_escape skipWs_head isWs_def)

lemmas [simp del] = parseValue.simps parseMore.simps parseMember.simps

section \<open>Parsing a serialised value gives the value back\<close>

lemma plain_stringify: "plain v \<Longrightarrow> \<exists>t. stringify v = Some t"
  by (cases v) auto

lemma stringify_head:
  assumes "stringify v = Some t"
  shows "\<exists>c r. t = c # r \<and> \<not> isWs c \<and> c \<noteq> 0x5D \<and> c \<noteq> 0x7D \<and> c \<noteq> 0x2C"
proof (cases v)
  case (VNum i)
  obtain c r where cr: "showInt i = c # r" using showInt_nonempty[of i] by (cases "showInt i") auto
  then have "c = 0x2D \<or> isDigit c" by (rule showInt_head)
  then have "\<not> isWs c \<and> c \<noteq> 0x5D \<and> c \<noteq> 0x7D \<and> c \<noteq> 0x2C"
    using isDigit_not_ws[of c] isDigit_other[of c] by (auto simp: isWs_def)
  moreover from assms VNum have "t = c # r" by (simp add: cr)
  ultimately show ?thesis by blast
qed (use assms in \<open>auto simp: js_def isWs_def quote_def\<close>)

lemma delimited_comma: "delimited (0x2C # r)" and delimited_bracket: "delimited (0x5D # r)"
  and delimited_brace: "delimited (0x7D # r)" and delimited_Nil: "delimited []"
  by (simp_all add: delimited_def)

lemma commas_Cons: "commas (t # ts) = t @ concat (map ((#) 0x2C) ts)"
  by (induction ts arbitrary: t) auto

lemma put_fresh: "k \<notin> fst ` set acc \<Longrightarrow> put k v acc = acc @ [(k, v)]"
  by (induction acc) auto

lemma more_elements:
  assumes each: "\<And>x t rest fuel. x \<in> set xs \<Longrightarrow> stringify x = Some t \<Longrightarrow> delimited rest \<Longrightarrow>
              length t < fuel \<Longrightarrow> parseValue fuel (t @ rest) = Parsed (x, rest)"
    and "list_all plain xs"
    and "length (concat (map ((#) 0x2C) (stringifyElements xs))) < fuel"
  shows "parseMore fuel acc (concat (map ((#) 0x2C) (stringifyElements xs)) @ 0x5D # rest)
           = Parsed (VArr (acc @ xs), rest)"
  using assms
proof (induction xs arbitrary: acc fuel)
  case Nil
  then obtain n where "fuel = Suc n" by (cases fuel) auto
  then show ?case by (simp add: parseMore_close)
next
  case (Cons x xs)
  from Cons.prems(2) have px: "plain x" and pxs: "list_all plain xs" by simp_all
  from px obtain tx where tx: "stringify x = Some tx" using plain_stringify by blast
  let ?more = "concat (map ((#) 0x2C) (stringifyElements xs))"
  from Cons.prems(3) tx obtain n where fuel: "fuel = Suc n" and len: "length tx + length ?more < n"
    by (cases fuel) auto
  have first: "parseValue n (tx @ (?more @ 0x5D # rest)) = Parsed (x, ?more @ 0x5D # rest)"
  proof (rule Cons.prems(1))
    show "x \<in> set (x # xs)" by simp
    show "stringify x = Some tx" by (rule tx)
    show "delimited (?more @ 0x5D # rest)"
      by (cases "stringifyElements xs") (simp_all add: delimited_def)
    show "length tx < n" using len by simp
  qed
  have rest: "parseMore n (acc @ [x]) (?more @ 0x5D # rest) = Parsed (VArr ((acc @ [x]) @ xs), rest)"
  proof (rule Cons.IH)
    show "\<And>y t rest fuel. y \<in> set xs \<Longrightarrow> stringify y = Some t \<Longrightarrow> delimited rest \<Longrightarrow>
           length t < fuel \<Longrightarrow> parseValue fuel (t @ rest) = Parsed (y, rest)"
      using Cons.prems(1) by simp
    show "list_all plain xs" by (rule pxs)
    show "length ?more < n" using len by simp
  qed
  show ?case
    using first rest by (simp add: fuel tx parseMore_comma)
qed

lemma members_head:
  "list_all (\<lambda>kv. plain (snd kv)) kvs \<Longrightarrow> kvs \<noteq> [] \<Longrightarrow>
   \<exists>r. commas (stringifyMembers kvs) = 0x22 # r"
proof (cases kvs)
  case Nil
  assume "kvs \<noteq> []"
  with Nil show ?thesis by simp
next
  case (Cons kv kvs')
  assume "list_all (\<lambda>kv. plain (snd kv)) kvs"
  with Cons have "plain (snd kv)" by simp
  then obtain t where "stringify (snd kv) = Some t" using plain_stringify by blast
  then show ?thesis
    unfolding Cons by (cases kv) (simp add: commas_Cons quote_def)
qed

lemma members_text:
  assumes each: "\<And>k v t rest fuel. (k, v) \<in> set kvs \<Longrightarrow> stringify v = Some t \<Longrightarrow> delimited rest \<Longrightarrow>
              length t < fuel \<Longrightarrow> parseValue fuel (t @ rest) = Parsed (v, rest)"
    and "list_all (\<lambda>kv. plain (snd kv)) kvs"
    and "distinct (map fst kvs)"
    and "fst ` set kvs \<inter> fst ` set acc = {}"
    and "kvs \<noteq> []"
    and "length (commas (stringifyMembers kvs)) < fuel"
  shows "parseMember fuel acc (commas (stringifyMembers kvs) @ 0x7D # rest)
           = Parsed (VObj (acc @ kvs), rest)"
  using assms
proof (induction kvs arbitrary: acc fuel)
  case Nil
  then show ?case by simp
next
  case (Cons kv kvs)
  obtain k v where kv: "kv = (k, v)" by (cases kv)
  from Cons.prems(2) kv have pv: "plain v" and pkvs: "list_all (\<lambda>kv. plain (snd kv)) kvs"
    by simp_all
  from pv obtain tv where tv: "stringify v = Some tv" using plain_stringify by blast
  from Cons.prems(4) kv have fresh: "k \<notin> fst ` set acc" by auto
  have mem: "stringifyMembers (kv # kvs) = (quote k @ 0x3A # tv) # stringifyMembers kvs"
    by (simp add: kv tv)
  have each': "parseValue fuel (t @ rest) = Parsed (v', rest)"
    if "(k', v') \<in> set kvs" "stringify v' = Some t" "delimited rest" "length t < fuel"
    for k' v' t rest fuel
    using that Cons.prems(1)[of k' v' t rest fuel] by simp
  show ?case
  proof (cases "kvs = []")
    case True
    from Cons.prems(6) mem True obtain n where fuel: "fuel = Suc n" and len: "length tv < n"
      by (cases fuel) auto
    have "parseValue n (tv @ 0x7D # rest) = Parsed (v, 0x7D # rest)"
      by (rule Cons.prems(1)[of k v]) (simp_all add: kv tv delimited_brace len)
    then show ?thesis
      using True
      by (simp add: fuel kv tv parseMember_key skipWs_head isWs_def put_fresh[OF fresh])
  next
    case False
    let ?tail = "commas (stringifyMembers kvs)"
    from False pkvs obtain r where hd: "?tail = 0x22 # r" using members_head by blast
    from False obtain m ms where ms: "stringifyMembers kvs = m # ms"
      using hd by (cases "stringifyMembers kvs") auto
    have shape: "commas (stringifyMembers (kv # kvs)) = quote k @ 0x3A # tv @ 0x2C # ?tail"
      by (simp add: mem ms)
    from Cons.prems(6) shape obtain n where fuel: "fuel = Suc n"
      and len: "length tv < n" "length ?tail < n"
      by (cases fuel) auto
    have first: "parseValue n (tv @ 0x2C # ?tail @ 0x7D # rest)
                   = Parsed (v, 0x2C # ?tail @ 0x7D # rest)"
      by (rule Cons.prems(1)[of k v]) (simp_all add: kv tv delimited_comma len)
    have skip: "skipWs (?tail @ 0x7D # rest) = ?tail @ 0x7D # rest"
      by (simp add: hd skipWs_head isWs_def)
    have next_members: "parseMember n (acc @ [(k, v)]) (?tail @ 0x7D # rest)
                   = Parsed (VObj ((acc @ [(k, v)]) @ kvs), rest)"
    proof (rule Cons.IH[OF each' pkvs])
      show "distinct (map fst kvs)" using Cons.prems(3) by simp
      show "fst ` set kvs \<inter> fst ` set (acc @ [(k, v)]) = {}"
        using Cons.prems(3,4) kv by auto
      show "kvs \<noteq> []" by (rule False)
      show "length ?tail < n" by (rule len)
    qed
    show ?thesis
      unfolding shape fuel using first next_members
      by (simp add: parseMember_key skipWs_head isWs_def skip put_fresh[OF fresh] kv)
  qed
qed

lemma parseValue_stringify:
  "plain v \<Longrightarrow> stringify v = Some t \<Longrightarrow> delimited rest \<Longrightarrow> length t < fuel \<Longrightarrow>
   parseValue fuel (t @ rest) = Parsed (v, rest)"
proof (induction v arbitrary: t rest fuel)
  case VUndefined
  then show ?case by simp
next
  case VNull
  then obtain n where "fuel = Suc n" by (cases fuel) auto
  with VNull show ?case by (auto simp: parseValue_null)
next
  case (VBool b)
  then obtain n where "fuel = Suc n" by (cases fuel) auto
  with VBool show ?case by (auto simp: parseValue_true parseValue_false)
next
  case (VNum i)
  then obtain n where fuel: "fuel = Suc n" by (cases fuel) auto
  obtain c r where cr: "showInt i = c # r" using showInt_nonempty[of i] by (cases "showInt i") auto
  then have "c = 0x2D \<or> isDigit c" by (rule showInt_head)
  then have "parseValue (Suc n) (c # (r @ rest)) = parseNumber (c # (r @ rest))"
    by (rule parseValue_number)
  with VNum cr fuel show ?case
    using parseNumber_showInt[of rest i] by auto
next
  case (VStr s)
  then obtain n where "fuel = Suc n" by (cases fuel) auto
  with VStr show ?case
    by (auto simp: quote_def parseValue_string stringBody_escape)
next
  case (VArr xs)
  show ?case
  proof (cases xs)
    case Nil
    from VArr.prems obtain n where "fuel = Suc n" by (cases fuel) auto
    with VArr.prems Nil show ?thesis by (auto simp: parseValue_array_empty)
  next
    case (Cons x xs')
    from VArr.prems(1) Cons have px: "plain x" and pxs: "list_all plain xs'" by simp_all
    from px obtain tx where tx: "stringify x = Some tx" using plain_stringify by blast
    then obtain d r where dr: "tx = d # r" and d: "\<not> isWs d" "d \<noteq> 0x5D"
      using stringify_head by blast
    let ?more = "concat (map ((#) 0x2C) (stringifyElements xs'))"
    have t: "t = 0x5B # tx @ ?more @ [0x5D]"
      using VArr.prems(2) Cons tx by (simp add: commas_Cons)
    with VArr.prems(4) obtain n where fuel: "fuel = Suc n" and len: "length tx < n" "length ?more < n"
      by (cases fuel) auto
    have first: "parseValue n (tx @ (?more @ 0x5D # rest)) = Parsed (x, ?more @ 0x5D # rest)"
    proof (rule VArr.IH)
      show "x \<in> set xs" using Cons by simp
      show "plain x" by (rule px)
      show "stringify x = Some tx" by (rule tx)
      show "delimited (?more @ 0x5D # rest)"
        by (cases "stringifyElements xs'") (simp_all add: delimited_def)
      show "length tx < n" by (rule len)
    qed
    have others: "parseMore n [x] (?more @ 0x5D # rest) = Parsed (VArr ([x] @ xs'), rest)"
    proof (rule more_elements)
      fix y u rest' fuel'
      assume y: "y \<in> set xs'" and u: "stringify y = Some u" and "delimited rest'" "length u < fuel'"
      moreover from y pxs have "plain y" by (simp add: list_all_iff)
      moreover from y Cons have "y \<in> set xs" by simp
      ultimately show "parseValue fuel' (u @ rest') = Parsed (y, rest')"
        using VArr.IH by blast
    next
      show "list_all plain xs'" by (rule pxs)
      show "length ?more < n" by (rule len)
    qed
    have "parseValue (Suc n) (0x5B # d # (r @ ?more @ 0x5D # rest))
            = bindp (parseValue n (d # (r @ ?more @ 0x5D # rest))) (\<lambda>(v, rest). parseMore n [v] rest)"
      using d by (rule parseValue_array)
    with first others show ?thesis
      by (simp add: t fuel dr Cons)
  qed
next
  case (VObj kvs)
  show ?case
  proof (cases "kvs = []")
    case True
    from VObj.prems obtain n where "fuel = Suc n" by (cases fuel) auto
    with VObj.prems True show ?thesis by (auto simp: parseValue_object_empty)
  next
    case False
    from VObj.prems(1) have pk: "list_all (\<lambda>kv. plain (snd kv)) kvs" and dk: "distinct (map fst kvs)"
      by simp_all
    let ?body = "commas (stringifyMembers kvs)"
    from False pk obtain r where hd: "?body = 0x22 # r" using members_head by blast
    have t: "t = 0x7B # ?body @ [0x7D]" using VObj.prems(2) by simp
    with VObj.prems(4) obtain n where fuel: "fuel = Suc n" and len: "length ?body < n"
      by (cases fuel) auto
    have "parseMember n [] (?body @ 0x7D # rest) = Parsed (VObj ([] @ kvs), rest)"
    proof (rule members_text)
      fix k v u rest' fuel'
      assume kv: "(k, v) \<in> set kvs" and u: "stringify v = Some u" "delimited rest'" "length u < fuel'"
      from kv pk have "plain v" by (auto simp: list_all_iff)
      moreover from kv have "v \<in> Basic_BNFs.snds (k, v)" by simp
      ultimately show "parseValue fuel' (u @ rest') = Parsed (v, rest')"
        using VObj.IH[OF kv] u by blast
    next
      show "list_all (\<lambda>kv. plain (snd kv)) kvs" by (rule pk)
      show "distinct (map fst kvs)" by (rule dk)
      show "fst ` set kvs \<inter> fst ` set [] = {}" by simp
      show "kvs \<noteq> []" by (rule False)
      show "length ?body < n" by (rule len)
    qed
    then show ?thesis
      by (simp add: t fuel hd parseValue_object)
  qed
qed

section \<open>Writing and then reading an entry\<close>

lemma JSON_parse_stringify:
  assumes "plain v" and "stringify v = Some t"
  shows "JSON_parse t = Parsed v"
proof -
  have "parseValue (Suc (length t)) (t @ []) = Parsed (v, [])"
    using assms by (intro parseValue_stringify) (simp_all add: delimited_Nil)
  then show ?thesis by (simp add: JSON_parse_def skipWs_def)
qed

lemma value_timestamp_keys: "js ''value'' \<noteq> js ''timestamp''"
  by (simp add: js_def)

lemma plain_envelope: "plain v \<Longrightarrow> plain (envelope v T)"
  by (simp add: envelope_def value_timestamp_keys)

lemma stringify_envelope: "\<exists>c r. stringify (envelope v T) = Some (c # r)"
  by (simp add: envelope_def)

lemma getItem_setItem:
  assumes "plain v"
  shows "getItem (setItem ls T name v) now name =
           (if now - T > EXPIRATION_TIME
            then (removeItem (setItem ls T name v) name, Returned VNull)
            else (setItem ls T name v, Returned v))"
proof -
  obtain c r where t: "stringify (envelope v T) = Some (c # r)"
    using stringify_envelope by blast
  have stored: "setItem ls T name v name = Some (c # r)"
    by (simp add: setItem_def t)
  have parsed: "JSON_parse (c # r) = Parsed (envelope v T)"
    using plain_envelope[OF assms] t by (rule JSON_parse_stringify)
  have props: "getProperty (envelope v T) (js ''value'') = v"
    "getProperty (envelope v T) (js ''timestamp'') = VNum T"
    using value_timestamp_keys by (auto simp: getProperty_def envelope_def)
  have obj: "envelope v T \<noteq> VNull" "envelope v T \<noteq> VUndefined"
    by (simp_all add: envelope_def)
  show ?thesis
    by (simp add: getItem_def stored parsed props obj expired_def removeItem_def)
qed

lemma getItem_absent: "ls name = None \<Longrightarrow> getItem ls now name = (ls, Returned VNull)"
  by (simp add: getItem_def)

section \<open>Parsing the text of any value\<close>

text \<open>
  Without a restriction on the value: reading the text that the serialiser wrote gives
  the image of the value, and the image of a value that JSON represents is the value.
\<close>

lemma stringify_None: "(stringify v = None) = (v = VUndefined)"
  by (cases v) auto

lemma imageMembers_silent: "stringifyMembers kvs = [] \<Longrightarrow> imageMembers acc kvs = acc"
  by (induction kvs arbitrary: acc) (auto split: option.splits)

lemma member_text_head: "stringifyMembers kvs = m # ms \<Longrightarrow> \<exists>r. m = 0x22 # r"
  by (induction kvs) (auto simp: quote_def split: option.splits)

lemma element_text_delimited:
  "delimited (concat (map ((#) 0x2C) ts) @ 0x5D # rest)"
  by (cases ts) (simp_all add: delimited_def)

lemma image_more_elements:
  assumes each: "\<And>x t rest fuel. x \<in> set xs \<Longrightarrow> stringify x = Some t \<Longrightarrow> delimited rest \<Longrightarrow>
              length t < fuel \<Longrightarrow> parseValue fuel (t @ rest) = Parsed (jsonImage x, rest)"
    and "length (concat (map ((#) 0x2C) (stringifyElements xs))) < fuel"
  shows "parseMore fuel acc (concat (map ((#) 0x2C) (stringifyElements xs)) @ 0x5D # rest)
           = Parsed (VArr (acc @ imageElements xs), rest)"
  using assms
proof (induction xs arbitrary: acc fuel)
  case Nil
  then obtain n where "fuel = Suc n" by (cases fuel) auto
  then show ?case by (simp add: parseMore_close)
next
  case (Cons x xs)
  let ?more = "concat (map ((#) 0x2C) (stringifyElements xs))"
  let ?tx = "case stringify x of None \<Rightarrow> js ''null'' | Some t \<Rightarrow> t"
  let ?ix = "case stringify x of None \<Rightarrow> VNull | Some t \<Rightarrow> jsonImage x"
  from Cons.prems(2) obtain n where fuel: "fuel = Suc n" and len: "length ?tx + length ?more < n"
    by (cases fuel) auto
  have first: "parseValue n (?tx @ (?more @ 0x5D # rest)) = Parsed (?ix, ?more @ 0x5D # rest)"
  proof (cases "stringify x")
    case None
    from len None obtain m where "n = Suc m" by (cases n) auto
    with None show ?thesis by (simp add: parseValue_null)
  next
    case (Some tx)
    have "parseValue n (tx @ (?more @ 0x5D # rest)) = Parsed (jsonImage x, ?more @ 0x5D # rest)"
    proof (rule Cons.prems(1))
      show "x \<in> set (x # xs)" by simp
      show "stringify x = Some tx" by (rule Some)
      show "delimited (?more @ 0x5D # rest)" by (rule element_text_delimited)
      show "length tx < n" using len Some by simp
    qed
    with Some show ?thesis by simp
  qed
  have others: "parseMore n (acc @ [?ix]) (?more @ 0x5D # rest)
                  = Parsed (VArr ((acc @ [?ix]) @ imageElements xs), rest)"
  proof (rule Cons.IH)
    show "\<And>y t rest fuel. y \<in> set xs \<Longrightarrow> stringify y = Some t \<Longrightarrow> delimited rest \<Longrightarrow>
           length t < fuel \<Longrightarrow> parseValue fuel (t @ rest) = Parsed (jsonImage y, rest)"
      using Cons.prems(1) by simp
    show "length ?more < n" using len by simp
  qed
  show ?case
    using first others by (simp add: fuel parseMore_comma)
qed

lemma image_members_text:
  assumes each: "\<And>k v t rest fuel. (k, v) \<in> set kvs \<Longrightarrow> stringify v = Some t \<Longrightarrow> delimited rest \<Longrightarrow>
              length t < fuel \<Longrightarrow> parseValue fuel (t @ rest) = Parsed (jsonImage v, rest)"
    and "stringifyMembers kvs \<noteq> []"
    and "length (commas (stringifyMembers kvs)) < fuel"
  shows "parseMember fuel acc (commas (stringifyMembers kvs) @ 0x7D # rest)
           = Parsed (VObj (imageMembers acc kvs), rest)"
  using assms
proof (induction kvs arbitrary: acc fuel)
  case Nil
  then show ?case by simp
next
  case (Cons kv kvs)
  obtain k v where kv: "kv = (k, v)" by (cases kv)
  have each': "parseValue fuel (t @ rest) = Parsed (jsonImage v', rest)"
    if "(k', v') \<in> set kvs" "stringify v' = Some t" "delimited rest" "length t < fuel"
    for k' v' t rest fuel
    using that Cons.prems(1)[of k' v' t rest fuel] by simp
  show ?case
  proof (cases "stringify v")
    case None
    have "parseMember fuel acc (commas (stringifyMembers kvs) @ 0x7D # rest)
            = Parsed (VObj (imageMembers acc kvs), rest)"
    proof (rule Cons.IH[OF each'])
      show "stringifyMembers kvs \<noteq> []" using Cons.prems(2) kv None by simp
      show "length (commas (stringifyMembers kvs)) < fuel" using Cons.prems(3) kv None by simp
    qed
    then show ?thesis by (simp add: kv None)
  next
    case (Some tv)
    have mem: "stringifyMembers (kv # kvs) = (quote k @ 0x3A # tv) # stringifyMembers kvs"
      by (simp add: kv Some)
    have img: "imageMembers acc (kv # kvs) = imageMembers (put k (jsonImage v) acc) kvs"
      by (simp add: kv Some)
    show ?thesis
    proof (cases "stringifyMembers kvs")
      case Nil
      from Cons.prems(3) mem Nil obtain n where fuel: "fuel = Suc n" and len: "length tv < n"
        by (cases fuel) auto
      have "parseValue n (tv @ 0x7D # rest) = Parsed (jsonImage v, 0x7D # rest)"
        by (rule Cons.prems(1)[of k v]) (simp_all add: kv Some delimited_brace len)
      then show ?thesis
        unfolding img mem Nil fuel
        by (simp add: parseMember_key skipWs_head isWs_def imageMembers_silent[OF Nil])
    next
      case further: (Cons m ms)
      let ?tail = "commas (stringifyMembers kvs)"
      from further obtain r where m: "m = 0x22 # r" using member_text_head by blast
      have hd: "?tail = 0x22 # (r @ concat (map ((#) 0x2C) ms))"
        by (simp add: further commas_Cons m)
      have shape: "commas (stringifyMembers (kv # kvs)) = quote k @ 0x3A # tv @ 0x2C # ?tail"
        by (simp add: mem further)
      from Cons.prems(3) shape obtain n where fuel: "fuel = Suc n"
        and len: "length tv < n" "length ?tail < n"
        by (cases fuel) auto
      have first: "parseValue n (tv @ 0x2C # ?tail @ 0x7D # rest)
                     = Parsed (jsonImage v, 0x2C # ?tail @ 0x7D # rest)"
        by (rule Cons.prems(1)[of k v]) (simp_all add: kv Some delimited_comma len)
      have skip: "skipWs (?tail @ 0x7D # rest) = ?tail @ 0x7D # rest"
        by (simp add: hd skipWs_head isWs_def)
      have next_members: "parseMember n (put k (jsonImage v) acc) (?tail @ 0x7D # rest)
                     = Parsed (VObj (imageMembers (put k (jsonImage v) acc) kvs), rest)"
      proof (rule Cons.IH[OF each'])
        show "stringifyMembers kvs \<noteq> []" using further by simp
        show "length ?tail < n" by (rule len)
      qed
      show ?thesis
        unfolding img shape fuel using first next_members
        by (simp add: parseMember_key skipWs_head isWs_def skip)
    qed
  qed
qed


lemma parseValue_stringify_image:
  "stringify v = Some t \<Longrightarrow> delimited rest \<Longrightarrow> length t < fuel \<Longrightarrow>
   parseValue fuel (t @ rest) = Parsed (jsonImage v, rest)"
proof (induction v arbitrary: t rest fuel)
  case VUndefined
  then show ?case by simp
next
  case VNull
  then obtain n where "fuel = Suc n" by (cases fuel) auto
  with VNull show ?case by (auto simp: parseValue_null)
next
  case (VBool b)
  then obtain n where "fuel = Suc n" by (cases fuel) auto
  with VBool show ?case by (auto simp: parseValue_true parseValue_false)
next
  case (VNum i)
  then obtain n where fuel: "fuel = Suc n" by (cases fuel) auto
  obtain c r where cr: "showInt i = c # r" using showInt_nonempty[of i] by (cases "showInt i") auto
  then have "c = 0x2D \<or> isDigit c" by (rule showInt_head)
  then have "parseValue (Suc n) (c # (r @ rest)) = parseNumber (c # (r @ rest))"
    by (rule parseValue_number)
  with VNum cr fuel show ?case
    using parseNumber_showInt[of rest i] by auto
next
  case (VStr s)
  then obtain n where "fuel = Suc n" by (cases fuel) auto
  with VStr show ?case
    by (auto simp: quote_def parseValue_string stringBody_escape)
next
  case (VArr xs)
  show ?case
  proof (cases xs)
    case Nil
    from VArr.prems obtain n where "fuel = Suc n" by (cases fuel) auto
    with VArr.prems Nil show ?thesis by (auto simp: parseValue_array_empty)
  next
    case (Cons x xs')
    let ?tx = "case stringify x of None \<Rightarrow> js ''null'' | Some t \<Rightarrow> t"
    let ?ix = "case stringify x of None \<Rightarrow> VNull | Some t \<Rightarrow> jsonImage x"
    let ?more = "concat (map ((#) 0x2C) (stringifyElements xs'))"
    have t: "t = 0x5B # ?tx @ ?more @ [0x5D]"
      using VArr.prems(1) Cons by (simp add: commas_Cons)
    with VArr.prems(3) obtain n where fuel: "fuel = Suc n" and len: "length ?tx < n" "length ?more < n"
      by (cases fuel) auto
    have starts: "\<exists>d r. ?tx = d # r \<and> \<not> isWs d \<and> d \<noteq> 0x5D"
    proof (cases "stringify x")
      case None
      then show ?thesis by (simp add: js_def isWs_def)
    next
      case (Some tx)
      then show ?thesis using stringify_head[OF Some] by auto
    qed
    then obtain d r where dr: "?tx = d # r" and d: "\<not> isWs d" "d \<noteq> 0x5D" by blast
    have first: "parseValue n (?tx @ (?more @ 0x5D # rest)) = Parsed (?ix, ?more @ 0x5D # rest)"
    proof (cases "stringify x")
      case None
      from len None obtain m where "n = Suc m" by (cases n) auto
      with None show ?thesis by (simp add: parseValue_null)
    next
      case (Some tx)
      have "parseValue n (tx @ (?more @ 0x5D # rest)) = Parsed (jsonImage x, ?more @ 0x5D # rest)"
      proof (rule VArr.IH)
        show "x \<in> set xs" using Cons by simp
        show "stringify x = Some tx" by (rule Some)
        show "delimited (?more @ 0x5D # rest)" by (rule element_text_delimited)
        show "length tx < n" using len Some by simp
      qed
      with Some show ?thesis by simp
    qed
    have others: "parseMore n [?ix] (?more @ 0x5D # rest) = Parsed (VArr ([?ix] @ imageElements xs'), rest)"
    proof (rule image_more_elements)
      fix y u rest' fuel'
      assume y: "y \<in> set xs'" and u: "stringify y = Some u" "delimited rest'" "length u < fuel'"
      from y Cons have "y \<in> set xs" by simp
      then show "parseValue fuel' (u @ rest') = Parsed (jsonImage y, rest')"
        using VArr.IH u by blast
    next
      show "length ?more < n" by (rule len)
    qed
    have "parseValue (Suc n) (0x5B # d # (r @ ?more @ 0x5D # rest))
            = bindp (parseValue n (d # (r @ ?more @ 0x5D # rest))) (\<lambda>(v, rest). parseMore n [v] rest)"
      using d by (rule parseValue_array)
    moreover have "?tx @ (?more @ 0x5D # rest) = d # (r @ ?more @ 0x5D # rest)"
      using dr by simp
    ultimately have "parseValue (Suc n) (0x5B # ?tx @ ?more @ 0x5D # rest)
            = Parsed (VArr (?ix # imageElements xs'), rest)"
      using first others by simp
    then show ?thesis by (simp add: t fuel Cons)
  qed
next
  case (VObj kvs)
  let ?body = "commas (stringifyMembers kvs)"
  have t: "t = 0x7B # ?body @ [0x7D]" using VObj.prems(1) by simp
  with VObj.prems(3) obtain n where fuel: "fuel = Suc n" and len: "length ?body < n"
    by (cases fuel) auto
  show ?case
  proof (cases "stringifyMembers kvs")
    case Nil
    then show ?thesis
      by (simp add: t fuel parseValue_object_empty imageMembers_silent)
  next
    case (Cons m ms)
    then obtain r where m: "m = 0x22 # r" using member_text_head by blast
    have hd: "?body = 0x22 # (r @ concat (map ((#) 0x2C) ms))"
      by (simp add: Cons commas_Cons m)
    have "parseMember n [] (?body @ 0x7D # rest) = Parsed (VObj (imageMembers [] kvs), rest)"
    proof (rule image_members_text)
      fix k v u rest' fuel'
      assume kv: "(k, v) \<in> set kvs" and u: "stringify v = Some u" "delimited rest'" "length u < fuel'"
      from kv have "v \<in> Basic_BNFs.snds (k, v)" by simp
      then show "parseValue fuel' (u @ rest') = Parsed (jsonImage v, rest')"
        using VObj.IH[OF kv] u by blast
    next
      show "stringifyMembers kvs \<noteq> []" using Cons by simp
      show "length ?body < n" by (rule len)
    qed
    then show ?thesis
      unfolding t fuel using hd by (simp add: parseValue_object)
  qed
qed

lemma JSON_parse_stringify_image:
  assumes "stringify v = Some t"
  shows "JSON_parse t = Parsed (jsonImage v)"
proof -
  have "parseValue (Suc (length t)) (t @ []) = Parsed (jsonImage v, [])"
    using assms by (intro parseValue_stringify_image) (simp_all add: delimited_Nil)
  then show ?thesis by (simp add: JSON_parse_def skipWs_def)
qed

lemma imageElements_plain:
  "(\<And>x. x \<in> set xs \<Longrightarrow> plain x \<Longrightarrow> jsonImage x = x) \<Longrightarrow> list_all plain xs \<Longrightarrow>
   imageElements xs = xs"
proof (induction xs)
  case Nil
  then show ?case by simp
next
  case (Cons x xs)
  then have "plain x" by simp
  then obtain t where "stringify x = Some t" using plain_stringify by blast
  with Cons show ?case by simp
qed

lemma imageMembers_plain:
  "(\<And>k v. (k, v) \<in> set kvs \<Longrightarrow> plain v \<Longrightarrow> jsonImage v = v) \<Longrightarrow>
   list_all (\<lambda>kv. plain (snd kv)) kvs \<Longrightarrow> distinct (map fst kvs) \<Longrightarrow>
   fst ` set kvs \<inter> fst ` set acc = {} \<Longrightarrow> imageMembers acc kvs = acc @ kvs"
proof (induction kvs arbitrary: acc)
  case Nil
  then show ?case by simp
next
  case (Cons kv kvs)
  obtain k v where kv: "kv = (k, v)" by (cases kv)
  with Cons.prems(2) have pv: "plain v" by simp
  then obtain t where t: "stringify v = Some t" using plain_stringify by blast
  from Cons.prems(1)[of k v] pv kv have same: "jsonImage v = v" by simp
  from Cons.prems(4) kv have fresh: "k \<notin> fst ` set acc" by auto
  have others: "jsonImage v' = v'" if "(k', v') \<in> set kvs" "plain v'" for k' v'
    using that Cons.prems(1)[of k' v'] by simp
  have "imageMembers (acc @ [(k, v)]) kvs = (acc @ [(k, v)]) @ kvs"
  proof (rule Cons.IH[OF others])
    show "list_all (\<lambda>kv. plain (snd kv)) kvs" using Cons.prems(2) by simp
    show "distinct (map fst kvs)" using Cons.prems(3) by simp
    show "fst ` set kvs \<inter> fst ` set (acc @ [(k, v)]) = {}"
      using Cons.prems(3,4) kv by auto
  qed
  then show ?case by (simp add: kv t same put_fresh[OF fresh])
qed

lemma jsonImage_plain: "plain v \<Longrightarrow> jsonImage v = v"
proof (induction v)
  case (VArr xs)
  then show ?case using imageElements_plain[of xs] by simp
next
  case (VObj kvs)
  have "imageMembers [] kvs = [] @ kvs"
  proof (rule imageMembers_plain)
    fix k v
    assume kv: "(k, v) \<in> set kvs" and "plain v"
    moreover from kv have "v \<in> Basic_BNFs.snds (k, v)" by simp
    ultimately show "jsonImage v = v" using VObj.IH[OF kv] by blast
  next
    show "list_all (\<lambda>kv. plain (snd kv)) kvs" "distinct (map fst kvs)"
      using VObj.prems by simp_all
    show "fst ` set kvs \<inter> fst ` set [] = {}" by simp
  qed
  then show ?case by simp
qed simp_all

lemma getItem_setItem_image:
  "getItem (setItem ls T name v) now name =
     (if now - T > EXPIRATION_TIME
      then (removeItem (setItem ls T name v) name, Returned VNull)
      else (setItem ls T name v, Returned (jsonImage v)))"
proof -
  obtain c r where t: "stringify (envelope v T) = Some (c # r)"
    using stringify_envelope by blast
  have stored: "setItem ls T name v name = Some (c # r)"
    by (simp add: setItem_def t)
  have parsed: "JSON_parse (c # r) = Parsed (jsonImage (envelope v T))"
    using t by (rule JSON_parse_stringify_image)
  have ts: "put (js ''timestamp'') (VNum T) [(js ''value'', x)]
              = [(js ''value'', x), (js ''timestamp'', VNum T)]" for x
    using value_timestamp_keys by auto
  have props: "getProperty (jsonImage (envelope v T)) (js ''value'') = jsonImage v"
    "getProperty (jsonImage (envelope v T)) (js ''timestamp'') = VNum T"
    using value_timestamp_keys
    by (auto simp: getProperty_def envelope_def ts stringify_None split: option.splits)
  have obj: "jsonImage (envelope v T) \<noteq> VNull" "jsonImage (envelope v T) \<noteq> VUndefined"
    by (simp_all add: envelope_def)
  show ?thesis
    by (simp add: getItem_def stored parsed props obj expired_def removeItem_def)
qed

section \<open>The recursion bound of the parser is never reached\<close>

text \<open>
  Every recursive call of the parser is on a shorter text, so a bound above the length of
  the text is enough: \<open>JSON_parse\<close> never answers \<open>OutOfFuel\<close>, and a failure it reports is
  a failure of the grammar.
\<close>

lemma within_iff:
  "within res s = (res \<noteq> OutOfFuel \<and> (\<forall>v r. res = Parsed (v, r) \<longrightarrow> length r \<le> length s))"
  by (auto simp: within_def split: parsed.splits)

lemma within_simps [simp]:
  "within SyntaxErr s" "within Unsupported s" "\<not> within OutOfFuel s"
  "within (Parsed (v, r)) s = (length r \<le> length s)"
  by (simp_all add: within_iff)

lemma within_mono: "within res s \<Longrightarrow> length s \<le> length s' \<Longrightarrow> within res s'"
  by (auto simp: within_iff)

lemma within_bindp:
  assumes "within res s" and "\<And>v r. res = Parsed (v, r) \<Longrightarrow> length r \<le> length s \<Longrightarrow> within (f (v, r)) s"
  shows "within (bindp res f) s"
  using assms by (cases res) auto

lemma skipWs_length: "length (skipWs s) \<le> length s"
  by (simp add: skipWs_def length_dropWhile_le)

lemma skipWs_Cons_length: "skipWs s = c # r \<Longrightarrow> length r < length s"
  using skipWs_length[of s] by simp

lemma stringBody_within: "within (stringBody s) s"
proof (induction s rule: length_induct)
  case (1 s)
  then have IH: "\<And>t. length t < length s \<Longrightarrow> within (stringBody t) t" by blast
  have step: "within (bindp (stringBody t) (\<lambda>(u, rest). Parsed (c # u, rest))) s"
    if "length t < length s" for t c
    using IH[OF that] that by (intro within_bindp[OF within_mono]) (auto simp: within_iff)
  show ?case
  proof (cases s)
    case Nil
    then show ?thesis by simp
  next
    case (Cons c r)
    have a: "within (bindp (stringBody r) (\<lambda>(u, rest). Parsed (x # u, rest))) s" for x
      using step[of r x] Cons by simp
    have b: "within (bindp (stringBody r') (\<lambda>(u, rest). Parsed (x # u, rest))) s" if "r = e # r'" for x e r'
      using step[of r' x] Cons that by simp
    have c: "within (bindp (stringBody (drop 4 r')) (\<lambda>(u, rest). Parsed (x # u, rest))) s"
      if "r = e # r'" for x e r'
      using step[of "drop 4 r'" x] Cons that by simp
    show ?thesis
      unfolding Cons stringBody.simps(2)
      using a b c Cons by (auto split: list.splits option.splits)
  qed
qed

lemma parseNat_within: "within (parseNat s) s"
proof (cases s)
  case Nil
  then show ?thesis by (simp add: parseNat_def)
next
  case (Cons c r)
  have "length (dropWhile isDigit s) \<le> length s" by (rule length_dropWhile_le)
  with Cons show ?thesis by (simp add: parseNat_def del: dropWhile.simps)
qed

lemma numberEnd_within: "length r \<le> length s \<Longrightarrow> within (numberEnd v r) s"
  by (auto simp: numberEnd_def split: list.splits)

lemma parseNumber_within: "within (parseNumber s) s"
proof (cases s)
  case Nil
  then show ?thesis by (simp add: parseNumber_def)
next
  case (Cons c r)
  have neg: "within (bindp (parseNat r) (\<lambda>(n, rest). numberEnd (VNum (- int n)) rest)) s"
    using Cons by (intro within_bindp[OF within_mono[OF parseNat_within]]) (auto simp: numberEnd_within)
  have pos: "within (bindp (parseNat s) (\<lambda>(n, rest). numberEnd (VNum (int n)) rest)) s"
    by (intro within_bindp[OF within_mono[OF parseNat_within]]) (auto simp: numberEnd_within)
  show ?thesis
  proof (cases "c = 0x2D")
    case True
    with neg Cons show ?thesis by (simp add: parseNumber_def)
  next
    case False
    with pos Cons show ?thesis by (simp add: parseNumber_def)
  qed
qed

lemma parseLiteral_within: "within (parseLiteral s) s"
  by (simp add: parseLiteral_def)

lemma fuel_sufficient_all:
  "(\<forall>s. length s < n \<longrightarrow> within (parseValue n s) s)
   \<and> (\<forall>acc s. length s < n \<longrightarrow> within (parseMore n acc s) s)
   \<and> (\<forall>acc s. length s < n \<longrightarrow> within (parseMember n acc s) s)"
proof (induction n)
  case 0
  then show ?case by simp
next
  case (Suc n)
  then have V: "\<And>s. length s < n \<Longrightarrow> within (parseValue n s) s"
    and M: "\<And>acc s. length s < n \<Longrightarrow> within (parseMore n acc s) s"
    and O: "\<And>acc s. length s < n \<Longrightarrow> within (parseMember n acc s) s"
    by blast+
  have pv: "within (parseValue (Suc n) s) s" if len: "length s < Suc n" for s
  proof (cases "skipWs s")
    case Nil
    then show ?thesis by (simp add: parseValue.simps)
  next
    case (Cons c r)
    then have r: "length r < length s" by (rule skipWs_Cons_length)
    have arr: "within (case skipWs r of [] \<Rightarrow> SyntaxErr
             | d # r' \<Rightarrow> if d = 0x5D then Parsed (VArr [], r')
                 else bindp (parseValue n (d # r')) (\<lambda>(v, rest). parseMore n [v] rest)) s"
    proof (cases "skipWs r")
      case Nil
      then show ?thesis by simp
    next
      case inner: (Cons d r')
      have l: "length (d # r') \<le> length r" using skipWs_length[of r] inner by simp
      have "within (bindp (parseValue n (d # r')) (\<lambda>(v, rest). parseMore n [v] rest)) s"
      proof (rule within_bindp)
        show "within (parseValue n (d # r')) s"
          by (rule within_mono[of _ "d # r'"]) (use V[of "d # r'"] l r len in simp_all)
      next
        fix v rest
        assume "parseValue n (d # r') = Parsed (v, rest)" and le: "length rest \<le> length s"
        then have "length rest \<le> length (d # r')"
          using V[of "d # r'"] l r len by (simp add: within_iff)
        then have lt: "length rest < n" using l r len by simp
        show "within (case (v, rest) of (v, rest) \<Rightarrow> parseMore n [v] rest) s"
          using M[OF lt, of "[v]"] le by (simp add: within_mono)
      qed
      with inner l r show ?thesis by simp
    qed
    have obj: "within (case skipWs r of [] \<Rightarrow> SyntaxErr
             | d # r' \<Rightarrow> if d = 0x7D then Parsed (VObj [], r') else parseMember n [] (d # r')) s"
    proof (cases "skipWs r")
      case Nil
      then show ?thesis by simp
    next
      case inner: (Cons d r')
      have l: "length (d # r') \<le> length r" using skipWs_length[of r] inner by simp
      have "within (parseMember n [] (d # r')) s"
        by (rule within_mono[of _ "d # r'"]) (use O[of "d # r'" "[]"] l r len in simp_all)
      with inner l r show ?thesis by simp
    qed
    have str: "within (bindp (stringBody r) (\<lambda>(str, rest). Parsed (VStr str, rest))) s"
      using r by (intro within_bindp[OF within_mono[OF stringBody_within]]) auto
    have num: "within (parseNumber (c # r)) s"
      using within_mono[OF parseNumber_within[of "c # r"], of s] skipWs_length[of s] Cons by simp
    have lit: "within (parseLiteral (c # r)) s"
      using within_mono[OF parseLiteral_within[of "c # r"], of s] skipWs_length[of s] Cons by simp
    show ?thesis
      using arr obj str num lit by (simp add: parseValue.simps Cons)
  qed
  have pm: "within (parseMore (Suc n) acc s) s" if len: "length s < Suc n" for acc s
  proof (cases "skipWs s")
    case Nil
    then show ?thesis by (simp add: parseMore.simps)
  next
    case (Cons c r)
    then have r: "length r < length s" by (rule skipWs_Cons_length)
    have "within (bindp (parseValue n r) (\<lambda>(v, rest). parseMore n (acc @ [v]) rest)) s"
    proof (rule within_bindp)
      show "within (parseValue n r) s"
        by (rule within_mono[of _ r]) (use V[of r] r len in simp_all)
    next
      fix v rest
      assume "parseValue n r = Parsed (v, rest)" and le: "length rest \<le> length s"
      then have "length rest \<le> length r" using V[of r] r len by (simp add: within_iff)
      then have lt: "length rest < n" using r len by simp
      show "within (case (v, rest) of (v, rest) \<Rightarrow> parseMore n (acc @ [v]) rest) s"
        using M[OF lt, of "acc @ [v]"] le by (simp add: within_mono)
    qed
    with r show ?thesis by (simp add: parseMore.simps Cons)
  qed
  have po: "within (parseMember (Suc n) acc s) s" if len: "length s < Suc n" for acc s
  proof (cases s)
    case Nil
    then show ?thesis by (simp add: parseMember.simps)
  next
    case (Cons q r)
    have "within (bindp (stringBody r) (\<lambda>(k, r1).
              case skipWs r1 of
                [] \<Rightarrow> SyntaxErr
              | col # r2 \<Rightarrow>
                  if col = 0x3A then
                    bindp (parseValue n r2) (\<lambda>(v, r3).
                      case skipWs r3 of
                        [] \<Rightarrow> SyntaxErr
                      | e # r4 \<Rightarrow>
                          if e = 0x2C then parseMember n (put k v acc) (skipWs r4)
                          else if e = 0x7D then Parsed (VObj (put k v acc), r4)
                          else SyntaxErr)
                  else SyntaxErr)) s"
    proof (rule within_bindp)
      show "within (stringBody r) s"
        using Cons by (intro within_mono[OF stringBody_within]) simp
    next
      fix k r1
      assume "stringBody r = Parsed (k, r1)" and "length r1 \<le> length s"
      then have r1: "length r1 \<le> length r" using stringBody_within[of r] by (simp add: within_iff)
      show "within (case (k, r1) of (k, r1) \<Rightarrow>
              case skipWs r1 of
                [] \<Rightarrow> SyntaxErr
              | col # r2 \<Rightarrow>
                  if col = 0x3A then
                    bindp (parseValue n r2) (\<lambda>(v, r3).
                      case skipWs r3 of
                        [] \<Rightarrow> SyntaxErr
                      | e # r4 \<Rightarrow>
                          if e = 0x2C then parseMember n (put k v acc) (skipWs r4)
                          else if e = 0x7D then Parsed (VObj (put k v acc), r4)
                          else SyntaxErr)
                  else SyntaxErr) s"
      proof (cases "skipWs r1")
        case Nil
        then show ?thesis by simp
      next
        case colon: (Cons col r2)
        then have r2: "length r2 < length r1" by (rule skipWs_Cons_length)
        have "within (bindp (parseValue n r2) (\<lambda>(v, r3).
                      case skipWs r3 of
                        [] \<Rightarrow> SyntaxErr
                      | e # r4 \<Rightarrow>
                          if e = 0x2C then parseMember n (put k v acc) (skipWs r4)
                          else if e = 0x7D then Parsed (VObj (put k v acc), r4)
                          else SyntaxErr)) s"
        proof (rule within_bindp)
          show "within (parseValue n r2) s"
            by (rule within_mono[of _ r2]) (use V[of r2] r2 r1 len Cons in simp_all)
        next
          fix v r3
          assume "parseValue n r2 = Parsed (v, r3)" and "length r3 \<le> length s"
          then have r3: "length r3 \<le> length r2" using V[of r2] r2 r1 len Cons by (simp add: within_iff)
          show "within (case (v, r3) of (v, r3) \<Rightarrow>
                      case skipWs r3 of
                        [] \<Rightarrow> SyntaxErr
                      | e # r4 \<Rightarrow>
                          if e = 0x2C then parseMember n (put k v acc) (skipWs r4)
                          else if e = 0x7D then Parsed (VObj (put k v acc), r4)
                          else SyntaxErr) s"
          proof (cases "skipWs r3")
            case Nil
            then show ?thesis by simp
          next
            case sep: (Cons e r4)
            then have r4: "length r4 < length r3" by (rule skipWs_Cons_length)
            have l4: "length (skipWs r4) < n"
              using skipWs_length[of r4] r4 r3 r2 r1 len Cons by simp
            have "within (parseMember n (put k v acc) (skipWs r4)) s"
              by (rule within_mono[of _ "skipWs r4"])
                (use O[OF l4, of "put k v acc"] skipWs_length[of r4] r4 r3 r2 r1 Cons in simp_all)
            with sep r4 r3 r2 r1 Cons show ?thesis by simp
          qed
        qed
        with colon show ?thesis by simp
      qed
    qed
    then show ?thesis by (cases "q = 0x22") (simp_all add: parseMember.simps Cons)
  qed
  from pv pm po show ?case by blast
qed

lemma JSON_parse_fuel: "JSON_parse s \<noteq> OutOfFuel"
proof -
  have "within (parseValue (Suc (length s)) s) s"
    using fuel_sufficient_all[of "Suc (length s)"] by simp
  then show ?thesis
    by (cases "parseValue (Suc (length s)) s") (auto simp: JSON_parse_def split: if_splits)
qed

section \<open>The storage handler: the claims\<close>

lemmas ev = js_def isLead_def isTrail_def isWs_def skipWs_def isDigit_def digitValue_def digitsValue_def
  parseNat_def numberEnd_def parseNumber_def parseLiteral_def hex4_def hexValue_def unescape_def
  JSON_parse_def quote_def showInt_def digitChar_def hexChar_def unicodeEscape_def
  parseValue.simps parseMore.simps parseMember.simps stringBody.simps escape.simps

text \<open>
  Claim C6 fails in its second half for a value that JSON does not represent: a state
  object with a function-valued property, as the store's own state has, written at time 0
  and read at 86 399 999, comes back without that property.
\<close>

theorem expiry_value_changed_counterexample:
  "(86399999 :: int) - 0 \<le> EXPIRATION_TIME
   \<and> snd (getItem (setItem Map.empty 0 storeKey stateWithAction) (0 + 86399999) storeKey)
       = Returned (VObj [(js ''page'', VNum 1)])
   \<and> snd (getItem (setItem Map.empty 0 storeKey stateWithAction) (0 + 86399999) storeKey)
       \<noteq> Returned stateWithAction"
  by (simp add: getItem_def setItem_def envelope_def storeKey_def getProperty_def expired_def
      EXPIRATION_TIME_def stateWithAction_def digits.simps[of 0] digits.simps[of "Suc 0"] ev)

text \<open>
  Claim C6, amended.  For every key and every value written at time \<open>T\<close>: a read at
  \<open>T + 86 400 001\<close> returns \<open>null\<close> and removes the entry, so that any later read finds
  nothing and returns \<open>null\<close> as well; a read at \<open>T + 86 399 999\<close>, and also one at exactly
  \<open>T + 86 400 000\<close>, leaves the entry alone and returns the value as its JSON text
  represents it, which is the value written, unchanged, whenever JSON represents that
  value.  In general the entry expires exactly when \<open>now - T\<close> exceeds the limit of
  86 400 000 ms (a strict comparison).  Writing stores the entry whatever its age will be;
  only a read removes it.
\<close>

theorem expiry_on_read:
  "EXPIRATION_TIME = 86400000
    \<and> getItem (setItem ls T name v) (T + 86400001) name
        = (removeItem (setItem ls T name v) name, Returned VNull)
    \<and> removeItem (setItem ls T name v) name name = None
    \<and> getItem (removeItem (setItem ls T name v) name) later name
        = (removeItem (setItem ls T name v) name, Returned VNull)
    \<and> getItem (setItem ls T name v) (T + 86399999) name
        = (setItem ls T name v, Returned (jsonImage v))
    \<and> getItem (setItem ls T name v) (T + 86400000) name
        = (setItem ls T name v, Returned (jsonImage v))
    \<and> (\<forall>now. now - T > 86400000 \<longrightarrow>
           getItem (setItem ls T name v) now name
             = (removeItem (setItem ls T name v) name, Returned VNull))
    \<and> (\<forall>now. now - T \<le> 86400000 \<longrightarrow>
           getItem (setItem ls T name v) now name = (setItem ls T name v, Returned (jsonImage v)))
    \<and> (plain v \<longrightarrow> jsonImage v = v)
    \<and> setItem ls T name v name \<noteq> None"
proof -
  have ttl: "EXPIRATION_TIME = 86400000" by (simp add: EXPIRATION_TIME_def)
  have gone: "getItem (removeItem (setItem ls T name v) name) later name
        = (removeItem (setItem ls T name v) name, Returned VNull)"
    by (rule getItem_absent) (simp add: removeItem_def)
  have kept: "setItem ls T name v name \<noteq> None" "removeItem (setItem ls T name v) name name = None"
    by (simp_all add: removeItem_def setItem_def)
  show ?thesis
    using gone kept by (simp add: getItem_setItem_image ttl jsonImage_plain)
qed

text \<open>
  The amended C6 at a persisted feed state written at 1 700 000 000 000, and its expiry half
  at the state object with an action.
\<close>

theorem expiry_on_read_witness:
  "plain feedValue
   \<and> getItem (setItem Map.empty 1700000000000 storeKey feedValue) (1700000000000 + 86400001) storeKey
       = (removeItem (setItem Map.empty 1700000000000 storeKey feedValue) storeKey, Returned VNull)
   \<and> getItem (setItem Map.empty 1700000000000 storeKey feedValue) (1700000000000 + 86399999) storeKey
       = (setItem Map.empty 1700000000000 storeKey feedValue, Returned feedValue)
   \<and> (1700086400001 :: int) - 1700000000000 > 86400000
   \<and> getItem (setItem Map.empty 1700000000000 storeKey feedValue) 1700086400001 storeKey
       = (removeItem (setItem Map.empty 1700000000000 storeKey feedValue) storeKey, Returned VNull)
   \<and> (1700086400000 :: int) - 1700000000000 \<le> 86400000
   \<and> getItem (setItem Map.empty 1700000000000 storeKey feedValue) 1700086400000 storeKey
       = (setItem Map.empty 1700000000000 storeKey feedValue, Returned feedValue)
   \<and> (1700086400001 :: int) - 1700000000000 > 86400000
   \<and> getItem (setItem Map.empty 1700000000000 storeKey stateWithAction) 1700086400001 storeKey
       = (removeItem (setItem Map.empty 1700000000000 storeKey stateWithAction) storeKey, Returned VNull)"
proof -
  have p: "plain feedValue" by (simp add: feedValue_def js_def)
  show ?thesis
    using p expiry_on_read[of Map.empty 1700000000000 storeKey feedValue 0]
      expiry_on_read[of Map.empty 1700000000000 storeKey stateWithAction 0]
    by simp
qed

text \<open>
  Claim C7 fails for a value with \<open>undefined\<close> inside: the array \<open>[undefined]\<close>, written and
  read back at once, comes back as \<open>[null]\<close>; and an object with a function-valued property,
  as the store's own state has (\<open>setPage\<close> and the other actions), comes back without that
  property.
\<close>

theorem roundtrip_undefined_counterexample:
  "(0 :: int) - 0 \<le> EXPIRATION_TIME
   \<and> snd (getItem (setItem Map.empty 0 storeKey (VArr [VUndefined])) 0 storeKey)
       = Returned (VArr [VNull])
   \<and> snd (getItem (setItem Map.empty 0 storeKey (VArr [VUndefined])) 0 storeKey)
       \<noteq> Returned (VArr [VUndefined])
   \<and> snd (getItem (setItem Map.empty 0 storeKey
              (VObj [(js ''page'', VNum 1), (js ''setPage'', VUndefined)])) 0 storeKey)
       = Returned (VObj [(js ''page'', VNum 1)])
   \<and> snd (getItem (setItem Map.empty 0 storeKey
              (VObj [(js ''page'', VNum 1), (js ''setPage'', VUndefined)])) 0 storeKey)
       \<noteq> Returned (VObj [(js ''page'', VNum 1), (js ''setPage'', VUndefined)])"
  by (simp add: getItem_def setItem_def envelope_def storeKey_def getProperty_def expired_def
      EXPIRATION_TIME_def digits.simps[of 0] digits.simps[of "Suc 0"] ev)

text \<open>
  Claim C7, amended.  For every value that JSON represents (no \<open>undefined\<close>, function or
  symbol inside, distinct property names), a write followed by a read of the same key
  within the time limit returns that very value and leaves the entry in place.
\<close>

theorem write_read_roundtrip:
  "plain v \<Longrightarrow> now - T \<le> EXPIRATION_TIME \<Longrightarrow>
   getItem (setItem ls T name v) now name = (setItem ls T name v, Returned v)
   \<and> getItem (setItem ls T name v) T name = (setItem ls T name v, Returned v)"
  by (simp add: getItem_setItem EXPIRATION_TIME_def)

text \<open>
  The amended C7 at a persisted feed state, read five milliseconds after the write.
\<close>

theorem write_read_roundtrip_witness:
  "plain feedValue \<and> (1700000000005 :: int) - 1700000000000 \<le> EXPIRATION_TIME
   \<and> getItem (setItem Map.empty 1700000000000 storeKey feedValue) 1700000000005 storeKey
       = (setItem Map.empty 1700000000000 storeKey feedValue, Returned feedValue)"
proof -
  have p: "plain feedValue" by (simp add: feedValue_def js_def)
  have t: "(1700000000005 :: int) - 1700000000000 \<le> EXPIRATION_TIME"
    by (simp add: EXPIRATION_TIME_def)
  show ?thesis
    using p t write_read_roundtrip[OF p t, of Map.empty storeKey] by simp
qed




end
